theory Spec2Isabelle
  imports Complex_Main "HOL-Library.Sublist" "HOL-Library.Multiset"
begin

section \<open>NearbyBites: the search-and-sync engine of the restaurant finder\<close>

text \<open>
  The development follows \<^verbatim>\<open>src/components/NearbyBites/index.tsx\<close>, the variant of
  the component with the in-flight guard \<^verbatim>\<open>isUpdatingRef\<close>. JavaScript numbers
  are modelled by rationals (the ratings of the provider are finite decimals, and on
  finite numbers the comparisons and the sign of a difference agree with the exact
  ones); \<^verbatim>\<open>undefined\<close> is \<open>None\<close>; a thrown exception is the left
  summand of a sum type.
\<close>

subsection \<open>Data model\<close>

datatype js_error = TypeError

record LatLng =
  lat :: rat
  lng :: rat

type_synonym PlacePhoto = nat

text \<open>\<^verbatim>\<open>google.maps.places.PlaceSearchRequest\<close>, as the component fills it.\<close>

datatype RankBy = PROMINENCE | DISTANCE

record PlaceSearchRequest =
  location :: LatLng
  radius :: nat
  type :: string
  rankBy :: RankBy
  keyword :: "string option"

datatype PlacesServiceStatus =
  OK | ZERO_RESULTS | INVALID_REQUEST | OVER_QUERY_LIMIT | REQUEST_DENIED
  | UNKNOWN_ERROR | NOT_FOUND

text \<open>
  \<^verbatim>\<open>google.maps.places.PlaceGeometry\<close> and \<^verbatim>\<open>PlaceResult\<close>: every field the
  component reads is optional in the provider's type.
\<close>

record PlaceGeometry =
  location :: "LatLng option"

record PlaceResult =
  place_id :: "string option"
  name :: "string option"
  rating :: "rat option"
  user_ratings_total :: "nat option"
  vicinity :: "string option"
  types :: "string list option"
  photos :: "PlacePhoto list option"
  geometry :: "PlaceGeometry option"

text \<open>
  The component's own \<^verbatim>\<open>Restaurant\<close> type. Its declaration makes
  \<^verbatim>\<open>place_id\<close>, \<^verbatim>\<open>name\<close> and \<^verbatim>\<open>geometry.location\<close> mandatory, but the
  values are produced with the non-null assertions \<^verbatim>\<open>place.place_id!\<close>,
  \<^verbatim>\<open>place.name!\<close> and \<^verbatim>\<open>place.geometry!.location!\<close>, which are erased at run
  time: a record built by the normalizer can carry \<^verbatim>\<open>undefined\<close> in these
  fields, so they stay optional here.
\<close>

record Restaurant =
  place_id :: "string option"
  name :: "string option"
  rating :: "rat option"
  user_ratings_total :: "nat option"
  vicinity :: "string option"
  types :: "string list option"
  photos :: "PlacePhoto list option"
  geometry :: PlaceGeometry

subsection \<open>JavaScript primitives used by the component\<close>

text \<open>\<^verbatim>\<open>x || 0\<close> on an optional number: \<^verbatim>\<open>undefined\<close> and \<open>0\<close> are falsy.\<close>

definition orZero :: "rat option \<Rightarrow> rat" where
  "orZero r = (case r of None \<Rightarrow> 0 | Some v \<Rightarrow> if v \<noteq> 0 then v else 0)"

text \<open>
  \<^verbatim>\<open>String.prototype.toLowerCase\<close>, on the ASCII letters: an upper-case letter
  (codes 65 to 90) has bit 5 set; every other character is unchanged.
\<close>

definition toLowerChar :: "char \<Rightarrow> char" where
  "toLowerChar c =
     (if 65 \<le> (of_char c :: nat) \<and> (of_char c :: nat) \<le> 90
      then (case c of Char b0 b1 b2 b3 b4 b5 b6 b7 \<Rightarrow> Char b0 b1 b2 b3 b4 True b6 b7)
      else c)"

definition toLowerCase :: "string \<Rightarrow> string" where
  "toLowerCase s = map toLowerChar s"

text \<open>\<^verbatim>\<open>s.includes(t)\<close>: \<open>t\<close> occurs in \<open>s\<close> as a contiguous substring.\<close>

fun str_includes :: "string \<Rightarrow> string \<Rightarrow> bool" where
  "str_includes [] t = (t = [])"
| "str_includes (c # cs) t = (prefix t (c # cs) \<or> str_includes cs t)"

text \<open>
  \<^verbatim>\<open>Array.prototype.sort(cmp)\<close>: the sort is stable (ECMAScript 2019), and an
  element \<open>a\<close> stays in front of \<open>b\<close> unless \<open>cmp a b > 0\<close>. The builtin is
  modelled by a stable insertion sort driven by the comparator.
\<close>

fun insertBy :: "('a \<Rightarrow> 'a \<Rightarrow> rat) \<Rightarrow> 'a \<Rightarrow> 'a list \<Rightarrow> 'a list" where
  "insertBy cmp x [] = [x]"
| "insertBy cmp x (y # ys) =
     (if cmp x y \<le> 0 then x # y # ys else y # insertBy cmp x ys)"

fun js_sort :: "('a \<Rightarrow> 'a \<Rightarrow> rat) \<Rightarrow> 'a list \<Rightarrow> 'a list" where
  "js_sort cmp [] = []"
| "js_sort cmp (x # xs) = insertBy cmp x (js_sort cmp xs)"

text \<open>
  \<^verbatim>\<open>Array.prototype.map\<close> with a callback that may throw: the first exception
  aborts the whole call.
\<close>

fun mapM :: "('a \<Rightarrow> js_error + 'b) \<Rightarrow> 'a list \<Rightarrow> js_error + 'b list" where
  "mapM f [] = Inr []"
| "mapM f (x # xs) =
     (case f x of
        Inl e \<Rightarrow> Inl e
      | Inr y \<Rightarrow> (case mapM f xs of Inl e \<Rightarrow> Inl e | Inr ys \<Rightarrow> Inr (y # ys)))"

subsection \<open>ResultNormalizer: the body of the \<^verbatim>\<open>nearbySearch\<close> callback\<close>

text \<open>\<^verbatim>\<open>place => place.rating && place.rating >= 3.5\<close>\<close>

definition admitted :: "PlaceResult \<Rightarrow> bool" where
  "admitted place =
     (case PlaceResult.rating place of
        None \<Rightarrow> False
      | Some v \<Rightarrow> v \<noteq> 0 \<and> v \<ge> 3.5)"

text \<open>\<^verbatim>\<open>(a, b) => (b.rating || 0) - (a.rating || 0)\<close>\<close>

definition byRatingDesc :: "PlaceResult \<Rightarrow> PlaceResult \<Rightarrow> rat" where
  "byRatingDesc a b = orZero (PlaceResult.rating b) - orZero (PlaceResult.rating a)"

definition sortedPlaces :: "PlaceResult list \<Rightarrow> PlaceResult list" where
  "sortedPlaces results = js_sort byRatingDesc (filter admitted results)"

text \<open>
  The callback of \<^verbatim>\<open>sorted.map\<close>. Reading \<^verbatim>\<open>place.geometry!.location!\<close> when
  \<^verbatim>\<open>geometry\<close> is \<^verbatim>\<open>undefined\<close> is a property access on
  \<^verbatim>\<open>undefined\<close> and throws a \<^verbatim>\<open>TypeError\<close>; an absent
  \<^verbatim>\<open>location\<close> inside a present geometry is copied as it is.
\<close>

definition mapPlace :: "PlaceResult \<Rightarrow> js_error + Restaurant" where
  "mapPlace place =
     (case PlaceResult.geometry place of
        None \<Rightarrow> Inl TypeError
      | Some g \<Rightarrow>
          Inr \<lparr> place_id = PlaceResult.place_id place,
                name = PlaceResult.name place,
                rating = PlaceResult.rating place,
                user_ratings_total = PlaceResult.user_ratings_total place,
                vicinity = PlaceResult.vicinity place,
                types = PlaceResult.types place,
                photos = PlaceResult.photos place,
                geometry = \<lparr> location = location g \<rparr> \<rparr>)"

definition normalizeResults :: "PlaceResult list \<Rightarrow> js_error + Restaurant list" where
  "normalizeResults results = mapM mapPlace (sortedPlaces results)"

subsection \<open>Component state\<close>

text \<open>
  A restaurant marker (\<^verbatim>\<open>AdvancedMarkerElement\<close>) is an object of the map
  provider: \<open>onMap\<close> says whether its \<^verbatim>\<open>map\<close> property is the map or
  \<^verbatim>\<open>null\<close>. The objects live in a heap (a list, the index being the
  object's identity) and \<^verbatim>\<open>markersRef.current\<close> holds references into it. The
  click listener of a marker only opens a popup and is not part of the model, and
  neither is the pin of the user's own position, which is created once at load and is
  never held in \<^verbatim>\<open>markersRef\<close>.
\<close>

record Marker =
  onMap :: bool
  position :: "LatLng option"
  title :: "string option"

text \<open>
  The two callbacks the component hands to \<^verbatim>\<open>setTimeout\<close> that touch its
  state: the debounced search of the idle listener and the delayed reset of
  \<^verbatim>\<open>isUpdatingRef\<close>. (The third one removes the radius circle from the map, two
  seconds after a radius change; it is drawing only.)
\<close>

datatype TimerAction = DebounceSearch | ResetUpdating

record Timer =
  tid :: nat
  due :: nat
  action :: TimerAction

text \<open>Which call site issued a \<^verbatim>\<open>nearbySearch\<close>: the load effect or \<^verbatim>\<open>searchNearby\<close>.\<close>

datatype Origin = InitialLoad | SearchNearby

text \<open>
  The values a \<^verbatim>\<open>searchNearby\<close> closure has captured: the state variables it
  reads are those of the render that created it
  (\<^verbatim>\<open>useCallback(..., [searchTerm, searchRadius, cuisineFilter, updateMarkers])\<close>).
\<close>

record SearchDeps =
  depSearchTerm :: string
  depSearchRadius :: nat
  depCuisineFilter :: string

type_synonym MapHandle = nat

text \<open>
  The \<^verbatim>\<open>useState\<close> variables and the \<^verbatim>\<open>useRef\<close> cells of
  \<^verbatim>\<open>NearbyBites\<close>, followed by the part of the environment the component
  talks to: the map's center (what \<^verbatim>\<open>getCenter()\<close> returns), the marker
  objects, the clock in milliseconds, the browser's pending timers, the gateway calls
  in flight, and a log of every \<^verbatim>\<open>nearbySearch\<close> call with the time it was
  issued. \<open>autocompleteRef\<close> holds the closure the \<^verbatim>\<open>place_changed\<close> listener
  captured when it was registered.
\<close>

record NearbyBites =
  restaurants :: "Restaurant list"
  loading :: bool
  error :: "string option"
  mapLoaded :: bool
  mapInstance :: "MapHandle option"
  searchTerm :: string
  cuisineFilter :: string
  minRating :: rat
  searchRadius :: nat
  autocompleteRef :: "SearchDeps option"
  markersRef :: "nat list"
  searchTimeoutRef :: "nat option"
  isUpdatingRef :: bool
  mapCenter :: "LatLng option"
  markerHeap :: "Marker list"
  now :: nat
  timers :: "Timer list"
  nextTimer :: nat
  pending :: "(Origin \<times> PlaceSearchRequest) list"
  issued :: "(nat \<times> PlaceSearchRequest) list"

definition initialState :: NearbyBites where
  "initialState =
     \<lparr> restaurants = [], loading = True, error = None, mapLoaded = False,
       mapInstance = None, searchTerm = [], cuisineFilter = [], minRating = 0,
       searchRadius = 24140, autocompleteRef = None, markersRef = [],
       searchTimeoutRef = None, isUpdatingRef = False, mapCenter = None,
       markerHeap = [], now = 0, timers = [], nextTimer = 0, pending = [],
       issued = [] \<rparr>"

subsection \<open>FilterPipeline: \<^verbatim>\<open>filteredRestaurants\<close>\<close>

definition matchesSearch :: "NearbyBites \<Rightarrow> string \<Rightarrow> Restaurant \<Rightarrow> bool" where
  "matchesSearch s nm r =
     (str_includes (toLowerCase nm) (toLowerCase (searchTerm s)) \<or>
      (case vicinity r of
         None \<Rightarrow> False
       | Some v \<Rightarrow> v \<noteq> [] \<and> str_includes (toLowerCase v) (toLowerCase (searchTerm s))))"

definition matchesCuisine :: "NearbyBites \<Rightarrow> Restaurant \<Rightarrow> bool" where
  "matchesCuisine s r =
     (cuisineFilter s = [] \<or>
      (case types r of
         None \<Rightarrow> False
       | Some ts \<Rightarrow>
           list_ex (\<lambda>t. str_includes (toLowerCase t) (toLowerCase (cuisineFilter s))) ts))"

text \<open>\<^verbatim>\<open>r.rating !== undefined && r.rating >= minRating\<close>\<close>

definition matchesRating :: "NearbyBites \<Rightarrow> Restaurant \<Rightarrow> bool" where
  "matchesRating s r =
     (case rating r of None \<Rightarrow> False | Some v \<Rightarrow> v \<ge> minRating s)"

text \<open>
  The filter callback. \<^verbatim>\<open>r.name.toLowerCase()\<close> is evaluated first and throws on
  a restaurant whose name is \<^verbatim>\<open>undefined\<close>.
\<close>

definition passesFilters :: "NearbyBites \<Rightarrow> Restaurant \<Rightarrow> js_error + bool" where
  "passesFilters s r =
     (case name r of
        None \<Rightarrow> Inl TypeError
      | Some nm \<Rightarrow> Inr (matchesSearch s nm r \<and> matchesCuisine s r \<and> matchesRating s r))"

fun filterM :: "('a \<Rightarrow> js_error + bool) \<Rightarrow> 'a list \<Rightarrow> js_error + 'a list" where
  "filterM p [] = Inr []"
| "filterM p (x # xs) =
     (case p x of
        Inl e \<Rightarrow> Inl e
      | Inr b \<Rightarrow>
          (case filterM p xs of
             Inl e \<Rightarrow> Inl e
           | Inr ys \<Rightarrow> Inr (if b then x # ys else ys)))"

text \<open>
  \<^verbatim>\<open>restaurants.filter(r => ...)\<close>, computed in every render from the working set
  \<^verbatim>\<open>restaurants\<close>. The layout with the guard computes the list and renders
  \<^verbatim>\<open>restaurants.slice(0, 15)\<close>; the layout with the rating slider renders the
  filtered list.
\<close>

definition filteredRestaurants :: "NearbyBites \<Rightarrow> js_error + Restaurant list" where
  "filteredRestaurants s = filterM (passesFilters s) (restaurants s)"

text \<open>
  The older variants of the component (the layouts without the guard) write the
  predicates with optional chaining and a truthiness test:
  \<^verbatim>\<open>r.vicinity?.toLowerCase().includes(...)\<close>,
  \<^verbatim>\<open>r.types?.some(type => type.includes(cuisineFilter.toLowerCase()))\<close> and
  \<^verbatim>\<open>r.rating ? r.rating >= minRating : false\<close>.
\<close>

definition matchesSearch_v :: "NearbyBites \<Rightarrow> string \<Rightarrow> Restaurant \<Rightarrow> bool" where
  "matchesSearch_v s nm r =
     (str_includes (toLowerCase nm) (toLowerCase (searchTerm s)) \<or>
      (case vicinity r of
         None \<Rightarrow> False
       | Some v \<Rightarrow> str_includes (toLowerCase v) (toLowerCase (searchTerm s))))"

definition matchesCuisine_v :: "NearbyBites \<Rightarrow> Restaurant \<Rightarrow> bool" where
  "matchesCuisine_v s r =
     (cuisineFilter s = [] \<or>
      (case types r of
         None \<Rightarrow> False
       | Some ts \<Rightarrow> list_ex (\<lambda>t. str_includes t (toLowerCase (cuisineFilter s))) ts))"

definition matchesRating_v :: "NearbyBites \<Rightarrow> Restaurant \<Rightarrow> bool" where
  "matchesRating_v s r =
     (case rating r of
        None \<Rightarrow> False
      | Some v \<Rightarrow> if v \<noteq> 0 then v \<ge> minRating s else False)"

definition passesFilters_v :: "NearbyBites \<Rightarrow> Restaurant \<Rightarrow> js_error + bool" where
  "passesFilters_v s r =
     (case name r of
        None \<Rightarrow> Inl TypeError
      | Some nm \<Rightarrow>
          Inr (matchesSearch_v s nm r \<and> matchesCuisine_v s r \<and> matchesRating_v s r))"

definition filteredRestaurants_v :: "NearbyBites \<Rightarrow> js_error + Restaurant list" where
  "filteredRestaurants_v s = filterM (passesFilters_v s) (restaurants s)"

subsection \<open>MarkerSynchronizer: \<^verbatim>\<open>updateMarkers\<close>\<close>

text \<open>\<^verbatim>\<open>marker.map = null\<close> on the object a reference points to.\<close>

definition release :: "nat \<Rightarrow> Marker list \<Rightarrow> Marker list" where
  "release a h = (if a < length h then h[a := (h ! a)\<lparr> onMap := False \<rparr>] else h)"

text \<open>
  \<^verbatim>\<open>markersRef.current.forEach(marker => marker.map = null); markersRef.current = []\<close>
\<close>

definition clearMarkers :: "NearbyBites \<Rightarrow> NearbyBites" where
  "clearMarkers s =
     s\<lparr> markerHeap := foldl (\<lambda>h a. release a h) (markerHeap s) (markersRef s),
        markersRef := [] \<rparr>"

text \<open>
  One round of the second loop: a new marker object on the map, at the restaurant's
  location and titled with its name, pushed onto \<^verbatim>\<open>markersRef.current\<close>.
\<close>

definition addMarker :: "NearbyBites \<Rightarrow> Restaurant \<Rightarrow> NearbyBites" where
  "addMarker s restaurant =
     s\<lparr> markerHeap := markerHeap s @
            [\<lparr> onMap = True, position = location (geometry restaurant),
               title = name restaurant \<rparr>],
        markersRef := markersRef s @ [length (markerHeap s)] \<rparr>"

definition updateMarkers :: "Restaurant list \<Rightarrow> NearbyBites \<Rightarrow> NearbyBites" where
  "updateMarkers rs s = foldl addMarker (clearMarkers s) rs"

text \<open>The markers that are on the map.\<close>

definition liveMarkers :: "NearbyBites \<Rightarrow> nat" where
  "liveMarkers s = length (filter onMap (markerHeap s))"

subsection \<open>SearchScheduler: \<^verbatim>\<open>searchNearby\<close>, the idle listener and the timers\<close>

text \<open>\<^verbatim>\<open>a || b\<close> on optional strings: \<^verbatim>\<open>undefined\<close> and \<^verbatim>\<open>""\<close> are falsy.\<close>

definition jsOr :: "string option \<Rightarrow> string option \<Rightarrow> string option" where
  "jsOr a b = (case a of None \<Rightarrow> b | Some x \<Rightarrow> if x \<noteq> [] then Some x else b)"

definition buildRequest :: "SearchDeps \<Rightarrow> LatLng \<Rightarrow> PlaceSearchRequest" where
  "buildRequest deps loc =
     \<lparr> PlaceSearchRequest.location = loc, radius = depSearchRadius deps, type = ''restaurant'',
       rankBy = PROMINENCE,
       keyword = jsOr (jsOr (Some (depCuisineFilter deps)) (Some (depSearchTerm deps))) None \<rparr>"

text \<open>
  \<^verbatim>\<open>searchNearby\<close> up to the call of \<^verbatim>\<open>service.nearbySearch\<close>; the callback
  runs when the gateway replies.
\<close>

definition searchNearby :: "SearchDeps \<Rightarrow> LatLng \<Rightarrow> NearbyBites \<Rightarrow> NearbyBites" where
  "searchNearby deps loc s =
     (if isUpdatingRef s then s
      else s\<lparr> isUpdatingRef := True, loading := True, error := None,
              pending := pending s @ [(SearchNearby, buildRequest deps loc)],
              issued := issued s @ [(now s, buildRequest deps loc)] \<rparr>)"

text \<open>The closure of the current render.\<close>

definition currentDeps :: "NearbyBites \<Rightarrow> SearchDeps" where
  "currentDeps s =
     \<lparr> depSearchTerm = searchTerm s, depSearchRadius = searchRadius s,
       depCuisineFilter = cuisineFilter s \<rparr>"

definition setTimeout :: "TimerAction \<Rightarrow> nat \<Rightarrow> NearbyBites \<Rightarrow> NearbyBites" where
  "setTimeout act delay s =
     s\<lparr> timers := timers s @ [\<lparr> tid = nextTimer s, due = now s + delay, action = act \<rparr>],
        nextTimer := Suc (nextTimer s) \<rparr>"

definition clearTimeout :: "nat \<Rightarrow> NearbyBites \<Rightarrow> NearbyBites" where
  "clearTimeout i s = s\<lparr> timers := filter (\<lambda>tm. tid tm \<noteq> i) (timers s) \<rparr>"

text \<open>
  A committed render. \<^verbatim>\<open>updateMarkers\<close> is a new function in every render and is
  in the dependency list of \<^verbatim>\<open>searchNearby\<close>, so every render re-runs the effect
  of the idle listener: its cleanup clears the timeout held in
  \<^verbatim>\<open>searchTimeoutRef\<close> (the cell itself keeps the stale id) and the listener is
  added again. The autocomplete effect registers its listener once, in the first
  render that has the map.
\<close>

definition rerender :: "NearbyBites \<Rightarrow> NearbyBites" where
  "rerender s =
     (let s1 = (case searchTimeoutRef s of
                  None \<Rightarrow> s
                | Some i \<Rightarrow> if mapInstance s \<noteq> None then clearTimeout i s else s)
      in if mapLoaded s1 \<and> autocompleteRef s1 = None
         then s1\<lparr> autocompleteRef := Some (currentDeps s1) \<rparr>
         else s1)"

text \<open>
  React renders again after a callback only if a state variable has changed.
  \<open>fresh\<close> is set when the callback has stored a newly built array, which never
  equals the old one.
\<close>

definition reactChanged :: "NearbyBites \<Rightarrow> NearbyBites \<Rightarrow> bool" where
  "reactChanged s s' =
     (restaurants s' \<noteq> restaurants s \<or> loading s' \<noteq> loading s \<or> error s' \<noteq> error s \<or>
      mapLoaded s' \<noteq> mapLoaded s \<or> mapInstance s' \<noteq> mapInstance s \<or>
      searchTerm s' \<noteq> searchTerm s \<or> cuisineFilter s' \<noteq> cuisineFilter s \<or>
      minRating s' \<noteq> minRating s \<or> searchRadius s' \<noteq> searchRadius s)"

definition commit :: "NearbyBites \<Rightarrow> bool \<Rightarrow> NearbyBites \<Rightarrow> NearbyBites" where
  "commit s fresh s' = (if fresh \<or> reactChanged s s' then rerender s' else s')"

text \<open>
  The callback given to \<^verbatim>\<open>nearbySearch\<close> by \<^verbatim>\<open>searchNearby\<close>. A present
  \<^verbatim>\<open>results\<close> array is truthy also when it is empty. The calls of
  \<^verbatim>\<open>fitBounds\<close> and of the console only draw and log; the idle event that a
  moved viewport causes is an event of its own.
\<close>

definition searchCallback ::
  "PlaceResult list option \<Rightarrow> PlacesServiceStatus \<Rightarrow> NearbyBites \<Rightarrow> js_error + NearbyBites" where
  "searchCallback results status s =
     (let finish = (\<lambda>s1. setTimeout ResetUpdating 1000 (s1\<lparr> loading := False \<rparr>)) in
      if status = OK \<and> results \<noteq> None then
        (case normalizeResults (the results) of
           Inl e \<Rightarrow> Inl e
         | Inr mappedResults \<Rightarrow>
             Inr (finish (updateMarkers mappedResults (s\<lparr> restaurants := mappedResults \<rparr>))))
      else if status = ZERO_RESULTS then
        Inr (finish (updateMarkers []
          (s\<lparr> error := Some ''No restaurants found in this area. Try adjusting your filters or search radius.'',
              restaurants := [] \<rparr>)))
      else
        Inr (finish (updateMarkers []
          (s\<lparr> error := Some ''Error fetching restaurants. Please try again.'',
              restaurants := [] \<rparr>))))"

text \<open>The callback of the search the load effect issues itself.\<close>

definition initialCallback ::
  "PlaceResult list option \<Rightarrow> PlacesServiceStatus \<Rightarrow> NearbyBites \<Rightarrow> js_error + NearbyBites" where
  "initialCallback results status s =
     (if status = OK \<and> results \<noteq> None then
        (case normalizeResults (the results) of
           Inl e \<Rightarrow> Inl e
         | Inr mappedResults \<Rightarrow>
             Inr ((updateMarkers mappedResults (s\<lparr> restaurants := mappedResults \<rparr>))
                    \<lparr> loading := False \<rparr>))
      else
        Inr (s\<lparr> error := Some ''No restaurants found or error fetching data.'',
                loading := False \<rparr>))"

text \<open>
  A reply of the gateway to a call in flight. An exception thrown by the callback
  leaves the callback at once: nothing after the throw has run.
\<close>

definition gatewayReply ::
  "Origin \<Rightarrow> PlacesServiceStatus \<Rightarrow> PlaceResult list option \<Rightarrow> NearbyBites \<Rightarrow> NearbyBites" where
  "gatewayReply origin status results s =
     (case find (\<lambda>call. fst call = origin) (pending s) of
        None \<Rightarrow> s
      | Some call \<Rightarrow>
          (let s0 = s\<lparr> pending := remove1 call (pending s) \<rparr> in
           case (case origin of
                   InitialLoad \<Rightarrow> initialCallback results status s0
                 | SearchNearby \<Rightarrow> searchCallback results status s0) of
             Inl e \<Rightarrow> s0
           | Inr s1 \<Rightarrow>
               commit s0 (origin = SearchNearby \<or> (status = OK \<and> results \<noteq> None)) s1))"

text \<open>
  The timers. A timer that fires is taken from the queue, the clock stands at its due
  time, and its callback runs: the debounced search reads the center of the map and
  calls \<^verbatim>\<open>searchNearby\<close>; the reset clears the flag.
\<close>

definition runTimer :: "Timer \<Rightarrow> NearbyBites \<Rightarrow> NearbyBites" where
  "runTimer tm s =
     (let s0 = s\<lparr> timers := remove1 tm (timers s), now := max (now s) (due tm) \<rparr> in
      case action tm of
        DebounceSearch \<Rightarrow>
          (case mapCenter s0 of
             None \<Rightarrow> s0
           | Some center \<Rightarrow> commit s0 False (searchNearby (currentDeps s0) center s0))
      | ResetUpdating \<Rightarrow> s0\<lparr> isUpdatingRef := False \<rparr>)"

text \<open>The pending timer that fires first: the least due time, the oldest on a tie.\<close>

fun earliest :: "Timer list \<Rightarrow> Timer option" where
  "earliest [] = None"
| "earliest (tm # tms) =
     (case earliest tms of
        None \<Rightarrow> Some tm
      | Some tm' \<Rightarrow> if due tm \<le> due tm' then Some tm else Some tm')"

definition nextDue :: "nat \<Rightarrow> NearbyBites \<Rightarrow> Timer option" where
  "nextDue t s = earliest (filter (\<lambda>tm. due tm \<le> t) (timers s))"

text \<open>
  The clock moves to \<open>t\<close>: every pending timer due by then fires, in order. No
  timer callback of the component sets a timer, so the queue shrinks with every
  firing.
\<close>

function advance :: "nat \<Rightarrow> NearbyBites \<Rightarrow> NearbyBites" where
  "advance t s =
     (case nextDue t s of
        None \<Rightarrow> s\<lparr> now := max (now s) t \<rparr>
      | Some tm \<Rightarrow> advance t (runTimer tm s))"
  by pat_completeness auto
termination
proof (relation "measure (\<lambda>(t, s). length (timers s))")
  show "wf (measure (\<lambda>(t, s). length (timers s)))" by simp
next
  fix t :: nat and s :: NearbyBites and tm :: Timer
  assume nd: "nextDue t s = Some tm"
  have mem: "earliest xs = Some y \<Longrightarrow> y \<in> set xs" for xs y
    by (induction xs arbitrary: y) (auto split: option.splits if_splits)
  from nd have "tm \<in> set (timers s)"
    using mem [of "filter (\<lambda>tm. due tm \<le> t) (timers s)" tm] by (simp add: nextDue_def)
  then have less: "length (remove1 tm (timers s)) < length (timers s)"
    by (simp add: length_remove1) (cases "timers s"; simp)
  have "length (timers (runTimer tm s)) \<le> length (remove1 tm (timers s))"
    by (auto simp: runTimer_def Let_def commit_def rerender_def clearTimeout_def
        searchNearby_def split: TimerAction.splits option.splits)
  with less show "((t, runTimer tm s), (t, s)) \<in> measure (\<lambda>(t, s). length (timers s))"
    by simp
qed

subsection \<open>Events and handlers\<close>

text \<open>
  What can happen to the mounted component: the position is found, the map settles, the
  user acts on a control, the autocomplete reports a selected place, the gateway replies
  to a call in flight. (A failure to load the map script or to find the position only
  sets the error message and ends the load; the firing of a timer is part of the
  clock.)
\<close>

datatype Event =
    Located LatLng
  | Idle "LatLng option"
  | SearchTermChange string
  | CuisineChange string
  | MinRatingChange rat
  | RadiusChange nat
  | SearchClick
  | ResetFilters
  | PlaceChanged PlaceResult
  | Reply Origin PlacesServiceStatus "PlaceResult list option"

text \<open>
  The success callback of \<^verbatim>\<open>getCurrentPosition\<close> in the load effect. The effect
  runs once, with the closure of the first render, and calls \<^verbatim>\<open>nearbySearch\<close>
  itself (keyword \<^verbatim>\<open>searchTerm || undefined\<close>), without going through
  \<^verbatim>\<open>searchNearby\<close>.
\<close>

definition initialRequest :: "LatLng \<Rightarrow> PlaceSearchRequest" where
  "initialRequest loc =
     \<lparr> PlaceSearchRequest.location = loc, radius = searchRadius initialState,
       type = ''restaurant'', rankBy = PROMINENCE,
       keyword = jsOr (Some (searchTerm initialState)) None \<rparr>"

definition onLocated :: "LatLng \<Rightarrow> NearbyBites \<Rightarrow> NearbyBites" where
  "onLocated loc s =
     (if mapInstance s \<noteq> None then s
      else s\<lparr> mapInstance := Some 0, mapLoaded := True, mapCenter := Some loc,
              pending := pending s @ [(InitialLoad, initialRequest loc)],
              issued := issued s @ [(now s, initialRequest loc)] \<rparr>)"

text \<open>
  The listener of the map's \<^verbatim>\<open>idle\<close> event; the event brings the center the
  viewport has settled at.
\<close>

definition onIdle :: "LatLng option \<Rightarrow> NearbyBites \<Rightarrow> NearbyBites" where
  "onIdle c s =
     (case mapInstance s of
        None \<Rightarrow> s
      | Some m \<Rightarrow>
          (let s0 = s\<lparr> mapCenter := c \<rparr>;
               s1 = (case searchTimeoutRef s0 of
                       None \<Rightarrow> s0
                     | Some i \<Rightarrow> clearTimeout i s0)
           in if \<not> isUpdatingRef s1
              then (setTimeout DebounceSearch 1000 s1)\<lparr> searchTimeoutRef := Some (nextTimer s1) \<rparr>
              else s1))"

text \<open>
  \<^verbatim>\<open>if (mapInstance) { const center = mapInstance.getCenter(); if (center) { ... } }\<close>
\<close>

definition withCenter ::
  "(LatLng \<Rightarrow> NearbyBites \<Rightarrow> NearbyBites) \<Rightarrow> NearbyBites \<Rightarrow> NearbyBites" where
  "withCenter k s =
     (case mapInstance s of
        None \<Rightarrow> s
      | Some m \<Rightarrow> (case mapCenter s of None \<Rightarrow> s | Some center \<Rightarrow> k center s))"

text \<open>
  The handlers of the controls. A state setter takes effect with the next render, so
  the \<^verbatim>\<open>searchNearby\<close> a handler calls is still the closure of the render the
  handler belongs to: it is given the values of the state the handler started in.
\<close>

definition onCuisineChange :: "string \<Rightarrow> NearbyBites \<Rightarrow> NearbyBites" where
  "onCuisineChange v s =
     withCenter (searchNearby (currentDeps s)) (s\<lparr> cuisineFilter := v \<rparr>)"

definition onRadiusChange :: "nat \<Rightarrow> NearbyBites \<Rightarrow> NearbyBites" where
  "onRadiusChange meters s =
     withCenter (searchNearby (currentDeps s)) (s\<lparr> searchRadius := meters \<rparr>)"

definition onSearchClick :: "NearbyBites \<Rightarrow> NearbyBites" where
  "onSearchClick s = withCenter (searchNearby (currentDeps s)) s"

definition onResetFilters :: "NearbyBites \<Rightarrow> NearbyBites" where
  "onResetFilters s =
     withCenter (searchNearby (currentDeps s))
       (s\<lparr> searchTerm := [], cuisineFilter := [], minRating := 0 \<rparr>)"

text \<open>
  The \<^verbatim>\<open>place_changed\<close> listener of the autocomplete, with the closure it was
  registered with; the map, once created, is never replaced.
\<close>

definition onPlaceChanged :: "PlaceResult \<Rightarrow> NearbyBites \<Rightarrow> NearbyBites" where
  "onPlaceChanged place s =
     (case autocompleteRef s of
        None \<Rightarrow> s
      | Some deps \<Rightarrow>
          (case PlaceResult.geometry place of
             None \<Rightarrow> s
           | Some g \<Rightarrow>
               (case location g of
                  None \<Rightarrow> s
                | Some loc \<Rightarrow>
                    if mapInstance s = None then s
                    else searchNearby deps loc
                           (s\<lparr> mapCenter := Some loc,
                               searchTerm := (case PlaceResult.name place of
                                                None \<Rightarrow> []
                                              | Some n \<Rightarrow> n) \<rparr>))))"

definition handle :: "Event \<Rightarrow> NearbyBites \<Rightarrow> NearbyBites" where
  "handle e s =
     (case e of
        Located loc \<Rightarrow> commit s False (onLocated loc s)
      | Idle c \<Rightarrow> commit s False (onIdle c s)
      | SearchTermChange v \<Rightarrow> commit s False (s\<lparr> searchTerm := v \<rparr>)
      | CuisineChange v \<Rightarrow> commit s False (onCuisineChange v s)
      | MinRatingChange v \<Rightarrow> commit s False (s\<lparr> minRating := v \<rparr>)
      | RadiusChange meters \<Rightarrow> commit s False (onRadiusChange meters s)
      | SearchClick \<Rightarrow> commit s False (onSearchClick s)
      | ResetFilters \<Rightarrow> commit s False (onResetFilters s)
      | PlaceChanged place \<Rightarrow> commit s False (onPlaceChanged place s)
      | Reply origin status results \<Rightarrow> gatewayReply origin status results s)"

text \<open>An event at time \<open>t\<close>: the timers due by \<open>t\<close> fire first.\<close>

definition step :: "NearbyBites \<Rightarrow> nat \<times> Event \<Rightarrow> NearbyBites" where
  "step s te = handle (snd te) (advance (fst te) s)"

definition run :: "NearbyBites \<Rightarrow> (nat \<times> Event) list \<Rightarrow> NearbyBites" where
  "run s tes = foldl step s tes"

text \<open>The events a user causes at the controls, as opposed to the map's idle event,
  the timers and the replies of the gateway.\<close>

fun userAction :: "Event \<Rightarrow> bool" where
  "userAction (SearchTermChange v) = True"
| "userAction (CuisineChange v) = True"
| "userAction (MinRatingChange v) = True"
| "userAction (RadiusChange meters) = True"
| "userAction SearchClick = True"
| "userAction ResetFilters = True"
| "userAction (PlaceChanged place) = True"
| "userAction e = False"

subsection \<open>Example data\<close>

text \<open>
  Provider records used to run the definitions: three places at the same spot (one
  well rated, one unrated, one rated below the floor), two more admitted places, one of
  them with the rating of the first, a place without geometry and a place whose geometry
  has no location.
\<close>

definition spot :: PlaceGeometry where
  "spot = \<lparr> location = Some \<lparr> lat = 1, lng = 1 \<rparr> \<rparr>"

definition pizzaPlace :: PlaceResult where
  "pizzaPlace =
     \<lparr> PlaceResult.place_id = Some ''a'', name = Some ''Pizza Place'', rating = Some 4.2,
       user_ratings_total = Some 150, vicinity = Some ''1 Main St'',
       types = Some [''restaurant'', ''pizza''], photos = None, geometry = Some spot \<rparr>"

definition unratedDiner :: PlaceResult where
  "unratedDiner =
     \<lparr> PlaceResult.place_id = Some ''b'', name = Some ''Unrated Diner'', rating = None,
       user_ratings_total = None, vicinity = None, types = None, photos = None,
       geometry = Some spot \<rparr>"

definition lowRatedCafe :: PlaceResult where
  "lowRatedCafe =
     \<lparr> PlaceResult.place_id = Some ''c'', name = Some ''Low Rated Cafe'', rating = Some 2,
       user_ratings_total = None, vicinity = None, types = None, photos = None,
       geometry = Some spot \<rparr>"

definition noodleHouse :: PlaceResult where
  "noodleHouse =
     \<lparr> PlaceResult.place_id = Some ''d'', name = Some ''Noodle House'', rating = Some 4.8,
       user_ratings_total = Some 12, vicinity = Some ''2 Main St'',
       types = Some [''restaurant''], photos = None, geometry = Some spot \<rparr>"

definition sushiBar :: PlaceResult where
  "sushiBar =
     \<lparr> PlaceResult.place_id = Some ''e'', name = Some ''Sushi Bar'', rating = Some 4.2,
       user_ratings_total = Some 80, vicinity = Some ''3 Main St'',
       types = Some [''restaurant'', ''sushi''], photos = None, geometry = Some spot \<rparr>"

definition noGeometry :: PlaceResult where
  "noGeometry =
     \<lparr> PlaceResult.place_id = Some ''f'', name = Some ''Ghost Kitchen'', rating = Some 4.5,
       user_ratings_total = Some 7, vicinity = None, types = None, photos = None,
       geometry = None \<rparr>"

definition noLocation :: PlaceResult where
  "noLocation =
     \<lparr> PlaceResult.place_id = Some ''g'', name = Some ''Food Truck'', rating = Some 4.5,
       user_ratings_total = Some 3, vicinity = None, types = None, photos = None,
       geometry = Some \<lparr> location = None \<rparr> \<rparr>"

text \<open>What the \<^verbatim>\<open>map\<close> callback makes of a place that has its geometry.\<close>

definition asRestaurant :: "PlaceResult \<Rightarrow> Restaurant" where
  "asRestaurant place =
     \<lparr> place_id = PlaceResult.place_id place, name = PlaceResult.name place,
       rating = PlaceResult.rating place,
       user_ratings_total = PlaceResult.user_ratings_total place,
       vicinity = PlaceResult.vicinity place, types = PlaceResult.types place,
       photos = PlaceResult.photos place,
       geometry = \<lparr> location = location (the (PlaceResult.geometry place)) \<rparr> \<rparr>"

subsection \<open>Invariants of the reachable states\<close>

text \<open>
  Every restaurant marker that is on the map is referenced from
  \<^verbatim>\<open>markersRef.current\<close>. It holds initially (there are no markers) and
  \<^verbatim>\<open>updateMarkers\<close>, the only code that creates restaurant markers or writes the
  cell, keeps it.
\<close>

definition tracked :: "NearbyBites \<Rightarrow> bool" where
  "tracked s =
     list_all (\<lambda>a. onMap (markerHeap s ! a) \<longrightarrow> a \<in> set (markersRef s))
       [0 ..< length (markerHeap s)]"

text \<open>
  The gateway calls in flight that \<^verbatim>\<open>searchNearby\<close> has issued, and the pending
  timers that will reset \<^verbatim>\<open>isUpdatingRef\<close>.
\<close>

definition searchCalls :: "NearbyBites \<Rightarrow> (Origin \<times> PlaceSearchRequest) list" where
  "searchCalls s = filter (\<lambda>call. fst call = SearchNearby) (pending s)"

definition resetTimers :: "NearbyBites \<Rightarrow> Timer list" where
  "resetTimers s = filter (\<lambda>tm. action tm = ResetUpdating) (timers s)"

text \<open>
  The guard of \<^verbatim>\<open>searchNearby\<close> as an invariant: the calls of
  \<^verbatim>\<open>searchNearby\<close> in flight and the pending resets of the flag are together at
  most one, and there is none unless the flag is set.
\<close>

definition guarded :: "NearbyBites \<Rightarrow> bool" where
  "guarded s =
     (length (searchCalls s) + length (resetTimers s) \<le> (if isUpdatingRef s then 1 else 0))"

text \<open>
  The load effect is over: the map exists and the search the effect issued itself is no
  longer in flight.
\<close>

definition loadOver :: "NearbyBites \<Rightarrow> bool" where
  "loadOver s = (mapInstance s \<noteq> None \<and> searchCalls s = pending s)"

text \<open>The timer id held in \<^verbatim>\<open>searchTimeoutRef\<close> has been handed out already.\<close>

definition freshIds :: "NearbyBites \<Rightarrow> bool" where
  "freshIds s = (case searchTimeoutRef s of None \<Rightarrow> True | Some i \<Rightarrow> i < nextTimer s)"

text \<open>
  Without a map there is neither a center nor a search of \<^verbatim>\<open>searchNearby\<close>: every
  call of \<^verbatim>\<open>searchNearby\<close> is given the map, so the flag is set only once the map
  exists.
\<close>

definition mapBound :: "NearbyBites \<Rightarrow> bool" where
  "mapBound s = (mapInstance s = None \<longrightarrow> mapCenter s = None \<and> \<not> isUpdatingRef s)"

text \<open>
  The cooldown up to time \<open>D\<close>: the flag is set, the map exists, no search of
  \<^verbatim>\<open>searchNearby\<close> is in flight and no timer that resets the flag is due before
  \<open>D\<close>.
\<close>

definition cooling :: "nat \<Rightarrow> NearbyBites \<Rightarrow> bool" where
  "cooling D s =
     (isUpdatingRef s \<and> mapInstance s \<noteq> None \<and> searchCalls s = [] \<and>
      list_all (\<lambda>tm. action tm = ResetUpdating \<longrightarrow> D \<le> due tm) (timers s))"

text \<open>
  A state of the running component: the position was found at time 0 and the search
  of the load effect came back empty at once.
\<close>

definition readyState :: NearbyBites where
  "readyState =
     run initialState [(0, Located \<lparr> lat = 1, lng = 1 \<rparr>), (0, Reply InitialLoad OK (Some []))]"


section \<open>Properties of the normalizer\<close>

lemma mapM_Inr_map: "mapM f xs = Inr ys \<Longrightarrow> map Inr ys = map f xs"
  by (induction xs arbitrary: ys) (auto split: sum.splits)

lemma mapM_Inr_iff: "(\<exists>ys. mapM f xs = Inr ys) \<longleftrightarrow> (\<forall>x \<in> set xs. \<exists>y. f x = Inr y)"
  by (induction xs) (auto split: sum.splits)

lemma mapM_set: "mapM f xs = Inr ys \<Longrightarrow> r \<in> set ys \<Longrightarrow> \<exists>p \<in> set xs. f p = Inr r"
  by (induction xs arbitrary: ys) (auto split: sum.splits)

lemma set_insertBy: "set (insertBy cmp x ys) = insert x (set ys)"
  by (induction ys) auto

lemma set_js_sort: "set (js_sort cmp xs) = set xs"
  by (induction xs) (auto simp: set_insertBy)

lemma length_insertBy: "length (insertBy cmp x ys) = Suc (length ys)"
  by (induction ys) auto

lemma length_js_sort: "length (js_sort cmp xs) = length xs"
  by (induction xs) (auto simp: length_insertBy)

text \<open>The comparator puts \<open>a\<close> in front of \<open>b\<close> when \<open>a\<close> is rated at least as high.\<close>

lemma byRatingDesc_le:
  "byRatingDesc a b \<le> 0 \<longleftrightarrow> orZero (PlaceResult.rating b) \<le> orZero (PlaceResult.rating a)"
  by (simp add: byRatingDesc_def)

lemma sorted_insertBy:
  "sorted_wrt (\<lambda>a b. orZero (PlaceResult.rating b) \<le> orZero (PlaceResult.rating a)) ys \<Longrightarrow>
   sorted_wrt (\<lambda>a b. orZero (PlaceResult.rating b) \<le> orZero (PlaceResult.rating a))
     (insertBy byRatingDesc x ys)"
  by (induction ys) (auto simp: set_insertBy byRatingDesc_le)

lemma sorted_js_sort:
  "sorted_wrt (\<lambda>a b. orZero (PlaceResult.rating b) \<le> orZero (PlaceResult.rating a))
     (js_sort byRatingDesc xs)"
  by (induction xs) (auto simp: sorted_insertBy)

text \<open>
  Stability: an inserted element only passes elements that are rated strictly higher,
  so the places of one rating keep their order.
\<close>

lemma filter_insertBy:
  "filter (\<lambda>p. orZero (PlaceResult.rating p) = k) (insertBy byRatingDesc x ys) =
     (if orZero (PlaceResult.rating x) = k
      then x # filter (\<lambda>p. orZero (PlaceResult.rating p) = k) ys
      else filter (\<lambda>p. orZero (PlaceResult.rating p) = k) ys)"
  by (induction ys) (auto simp: byRatingDesc_le)

lemma filter_js_sort:
  "filter (\<lambda>p. orZero (PlaceResult.rating p) = k) (js_sort byRatingDesc xs) =
   filter (\<lambda>p. orZero (PlaceResult.rating p) = k) xs"
  by (induction xs) (auto simp: filter_insertBy)

lemma mapPlace_rating: "mapPlace p = Inr r \<Longrightarrow> rating r = PlaceResult.rating p"
  by (auto simp: mapPlace_def split: option.splits)

lemma mapM_filter_key:
  "mapM mapPlace xs = Inr ys \<Longrightarrow>
   map Inr (filter (\<lambda>r. orZero (rating r) = k) ys) =
   map mapPlace (filter (\<lambda>p. orZero (PlaceResult.rating p) = k) xs)"
  by (induction xs arbitrary: ys) (auto split: sum.splits dest: mapPlace_rating)

lemma mapM_sorted:
  "mapM mapPlace xs = Inr ys \<Longrightarrow>
   sorted_wrt (\<lambda>a b. orZero (PlaceResult.rating b) \<le> orZero (PlaceResult.rating a)) xs \<Longrightarrow>
   sorted_wrt (\<lambda>a b. orZero (rating b) \<le> orZero (rating a)) ys"
proof (induction xs arbitrary: ys)
  case Nil
  then show ?case by simp
next
  case (Cons x xs)
  from Cons.prems(1) obtain y ys' where y: "mapPlace x = Inr y"
    and ys': "mapM mapPlace xs = Inr ys'" and ys: "ys = y # ys'"
    by (auto split: sum.splits)
  have "\<forall>r \<in> set ys'. orZero (rating r) \<le> orZero (rating y)"
  proof
    fix r assume "r \<in> set ys'"
    with ys' obtain p where "p \<in> set xs" "mapPlace p = Inr r"
      by (blast dest: mapM_set)
    with Cons.prems(2) y show "orZero (rating r) \<le> orZero (rating y)"
      by (auto dest!: mapPlace_rating)
  qed
  with Cons ys' ys show ?case by simp
qed

lemmas example_defs = pizzaPlace_def unratedDiner_def lowRatedCafe_def noodleHouse_def
  sushiBar_def noGeometry_def noLocation_def spot_def asRestaurant_def

lemmas normalizer_defs = normalizeResults_def sortedPlaces_def admitted_def mapPlace_def
  byRatingDesc_def orZero_def

lemma mset_insertBy: "mset (insertBy cmp x ys) = add_mset x (mset ys)"
  by (induction ys) auto

lemma mset_js_sort: "mset (js_sort cmp xs) = mset xs"
  by (induction xs) (auto simp: mset_insertBy)

lemma mapPlace_geometry:
  "PlaceResult.geometry p \<noteq> None \<Longrightarrow> mapPlace p = Inr (asRestaurant p)"
  by (auto simp: mapPlace_def asRestaurant_def)

lemma mapM_all_Inr: "(\<forall>x \<in> set xs. f x = Inr (g x)) \<Longrightarrow> mapM f xs = Inr (map g xs)"
  by (induction xs) auto

lemma mapM_some_Inl: "x \<in> set xs \<Longrightarrow> f x = Inl e \<Longrightarrow> \<exists>e'. mapM f xs = Inl e'"
  by (induction xs) (auto split: sum.splits)

text \<open>The normalization throws exactly when an admitted record has no geometry.\<close>

lemma normalizer_throws_iff:
  "normalizeResults results = Inl TypeError \<longleftrightarrow>
   (\<exists>p \<in> set results. admitted p \<and> PlaceResult.geometry p = None)"
proof
  assume "normalizeResults results = Inl TypeError"
  then have "\<not> (\<forall>p \<in> set (sortedPlaces results). \<exists>r. mapPlace p = Inr r)"
    using mapM_Inr_iff [of mapPlace "sortedPlaces results"] by (auto simp: normalizeResults_def)
  then obtain p where "p \<in> set (sortedPlaces results)" "\<forall>r. mapPlace p \<noteq> Inr r" by blast
  then show "\<exists>p \<in> set results. admitted p \<and> PlaceResult.geometry p = None"
    by (auto simp: sortedPlaces_def set_js_sort mapPlace_def split: option.splits)
next
  assume "\<exists>p \<in> set results. admitted p \<and> PlaceResult.geometry p = None"
  then obtain p where "p \<in> set (sortedPlaces results)" "mapPlace p = Inl TypeError"
    by (auto simp: sortedPlaces_def set_js_sort mapPlace_def)
  then obtain e where "normalizeResults results = Inl e"
    unfolding normalizeResults_def by (blast dest: mapM_some_Inl)
  then show "normalizeResults results = Inl TypeError" by (cases e) simp
qed

text \<open>
  Claim C2, as stated, fails. The claim: for every list of provider records, also with
  records whose geometry or geometry location is absent, the normalizer completes
  without throwing and discards the records without resolvable geometry. The code has
  no check of the geometry: a record that passes the rating filter and has no geometry
  makes the \<^verbatim>\<open>map\<close> callback read \<^verbatim>\<open>location\<close> of \<^verbatim>\<open>undefined\<close>, a
  \<^verbatim>\<open>TypeError\<close> that aborts the normalization; and a record whose geometry has no
  location is not discarded but admitted, with an undefined location.
\<close>

theorem normalizer_throws_without_geometry:
  "normalizeResults [pizzaPlace, noGeometry] = Inl TypeError \<and>
   normalizeResults [noLocation] = Inr [asRestaurant noLocation] \<and>
   location (geometry (asRestaurant noLocation)) = None"
  by (simp add: normalizer_defs example_defs)

text \<open>
  Claim C2, amended. When every record that passes the rating filter has a geometry, the
  normalizer completes without throwing. Its output is the admitted records in sorted
  order, each with its fields copied as they are (an absent optional field stays
  absent, and so does an absent location inside the geometry); the records it keeps
  are exactly the records that pass the rating filter, so whole records are dropped,
  and only for their rating.
\<close>

theorem normalizer_completes:
  assumes "\<forall>p \<in> set results. admitted p \<longrightarrow> PlaceResult.geometry p \<noteq> None"
  shows "normalizeResults results = Inr (map asRestaurant (sortedPlaces results)) \<and>
         mset (sortedPlaces results) = mset (filter admitted results)"
proof -
  from assms have "\<forall>p \<in> set (sortedPlaces results). mapPlace p = Inr (asRestaurant p)"
    by (auto simp: sortedPlaces_def set_js_sort intro: mapPlace_geometry)
  then have "normalizeResults results = Inr (map asRestaurant (sortedPlaces results))"
    unfolding normalizeResults_def by (rule mapM_all_Inr)
  then show ?thesis by (simp add: sortedPlaces_def mset_js_sort)
qed

theorem normalizer_completes_witness:
  "normalizeResults [pizzaPlace, unratedDiner, lowRatedCafe, noLocation] =
     Inr (map asRestaurant (sortedPlaces [pizzaPlace, unratedDiner, lowRatedCafe, noLocation])) \<and>
   sortedPlaces [pizzaPlace, unratedDiner, lowRatedCafe, noLocation] = [noLocation, pizzaPlace] \<and>
   filter admitted [pizzaPlace, unratedDiner, lowRatedCafe, noLocation] = [pizzaPlace, noLocation]"
proof -
  have "\<forall>p \<in> set [pizzaPlace, unratedDiner, lowRatedCafe, noLocation].
      admitted p \<longrightarrow> PlaceResult.geometry p \<noteq> None"
    by (simp add: example_defs)
  from normalizer_completes [OF this] show ?thesis
    by (simp add: normalizer_defs example_defs)
qed

text \<open>What the normalizer returns is rated, and rated at least 3.5.\<close>

lemma normalizeResults_rated:
  assumes "normalizeResults results = Inr out" and "r \<in> set out"
  shows "\<exists>v. rating r = Some v \<and> 3.5 \<le> v"
proof -
  from assms obtain p where p: "p \<in> set (sortedPlaces results)" and r: "mapPlace p = Inr r"
    unfolding normalizeResults_def by (blast dest: mapM_set)
  from p have "admitted p" by (simp add: sortedPlaces_def set_js_sort)
  then obtain v where "PlaceResult.rating p = Some v" "3.5 \<le> v"
    by (auto simp: admitted_def split: option.splits)
  with mapPlace_rating [OF r] show ?thesis by simp
qed

text \<open>
  Claim C3. No record without a rating or with a rating below 3.5 is in the
  normalized output: every restaurant the normalizer returns has a rating, and the
  rating is at least 3.5.
\<close>

theorem normalizer_admission_floor:
  assumes "normalizeResults results = Inr out" and "r \<in> set out"
  shows "\<exists>v. rating r = Some v \<and> 3.5 \<le> v"
  using assms by (rule normalizeResults_rated)

theorem normalizer_admission_floor_witness:
  "normalizeResults [pizzaPlace, unratedDiner, lowRatedCafe] = Inr [asRestaurant pizzaPlace] \<and>
   asRestaurant pizzaPlace \<in> set [asRestaurant pizzaPlace] \<and>
   (\<exists>v. rating (asRestaurant pizzaPlace) = Some v \<and> 3.5 \<le> v)"
  using normalizer_admission_floor [of "[pizzaPlace, unratedDiner, lowRatedCafe]"
      "[asRestaurant pizzaPlace]" "asRestaurant pizzaPlace"]
  by (simp add: normalizer_defs example_defs)

text \<open>
  Claim C4. The normalized output is sorted by rating, highest first, a missing rating
  counting as 0: every element is rated at least as high as every later one, in
  particular each one at least as high as its successor. And the sort is stable: for
  every rating \<open>k\<close>, the restaurants of rating \<open>k\<close> in the output are the admitted
  records of rating \<open>k\<close>, in the order in which the provider returned them.
\<close>

theorem normalizer_sorted_stable:
  assumes "normalizeResults results = Inr out"
  shows "sorted_wrt (\<lambda>a b. orZero (rating b) \<le> orZero (rating a)) out \<and>
         (\<forall>i. Suc i < length out \<longrightarrow>
              orZero (rating (out ! Suc i)) \<le> orZero (rating (out ! i))) \<and>
         (\<forall>k. map Inr (filter (\<lambda>r. orZero (rating r) = k) out) =
              map mapPlace
                (filter (\<lambda>p. admitted p \<and> orZero (PlaceResult.rating p) = k) results))"
proof -
  from assms have m: "mapM mapPlace (js_sort byRatingDesc (filter admitted results)) = Inr out"
    by (simp add: normalizeResults_def sortedPlaces_def)
  have s: "sorted_wrt (\<lambda>a b. orZero (rating b) \<le> orZero (rating a)) out"
    by (rule mapM_sorted [OF m sorted_js_sort])
  then have a: "\<forall>i. Suc i < length out \<longrightarrow>
      orZero (rating (out ! Suc i)) \<le> orZero (rating (out ! i))"
    by (simp add: sorted_wrt_iff_nth_less)
  have "map Inr (filter (\<lambda>r. orZero (rating r) = k) out) =
        map mapPlace (filter (\<lambda>p. admitted p \<and> orZero (PlaceResult.rating p) = k) results)"
    for k
    using mapM_filter_key [OF m, of k] by (simp add: filter_js_sort conj_commute)
  with s a show ?thesis by blast
qed

theorem normalizer_sorted_stable_witness:
  "normalizeResults [pizzaPlace, lowRatedCafe, noodleHouse, unratedDiner, sushiBar] =
     Inr [asRestaurant noodleHouse, asRestaurant pizzaPlace, asRestaurant sushiBar] \<and>
   sorted_wrt (\<lambda>a b. orZero (rating b) \<le> orZero (rating a))
      [asRestaurant noodleHouse, asRestaurant pizzaPlace, asRestaurant sushiBar] \<and>
   orZero (rating (asRestaurant pizzaPlace)) \<le> orZero (rating (asRestaurant noodleHouse)) \<and>
   orZero (rating (asRestaurant sushiBar)) \<le> orZero (rating (asRestaurant pizzaPlace)) \<and>
   (\<forall>k. map Inr (filter (\<lambda>r. orZero (rating r) = k)
              [asRestaurant noodleHouse, asRestaurant pizzaPlace, asRestaurant sushiBar]) =
         map mapPlace (filter (\<lambda>p. admitted p \<and> orZero (PlaceResult.rating p) = k)
              [pizzaPlace, lowRatedCafe, noodleHouse, unratedDiner, sushiBar]))"
proof -
  let ?out = "[asRestaurant noodleHouse, asRestaurant pizzaPlace, asRestaurant sushiBar]"
  have h: "normalizeResults [pizzaPlace, lowRatedCafe, noodleHouse, unratedDiner, sushiBar] =
     Inr ?out"
    by (simp add: normalizer_defs example_defs)
  note t = normalizer_sorted_stable [OF h]
  from t have adj: "\<forall>i. Suc i < length ?out \<longrightarrow>
      orZero (rating (?out ! Suc i)) \<le> orZero (rating (?out ! i))"
    by (rule conjunct1 [OF conjunct2])
  from adj [rule_format, of 0]
  have a0: "orZero (rating (asRestaurant pizzaPlace)) \<le> orZero (rating (asRestaurant noodleHouse))"
    by simp
  from adj [rule_format, of 1]
  have a1: "orZero (rating (asRestaurant sushiBar)) \<le> orZero (rating (asRestaurant pizzaPlace))"
    by simp
  from h t a0 a1 show ?thesis by blast
qed

section \<open>Properties of the filter pipeline\<close>

lemma filterM_set: "filterM p xs = Inr ys \<Longrightarrow> x \<in> set ys \<Longrightarrow> x \<in> set xs \<and> p x = Inr True"
  by (induction xs arbitrary: ys) (auto split: sum.splits if_splits)

lemma filterM_Inr_filter: "filterM p xs = Inr ys \<Longrightarrow> ys = filter (\<lambda>x. p x = Inr True) xs"
  by (induction xs arbitrary: ys) (auto split: sum.splits if_splits)

lemmas filter_defs = filteredRestaurants_def passesFilters_def matchesSearch_def matchesCuisine_def
  matchesRating_def filteredRestaurants_v_def passesFilters_v_def matchesSearch_v_def
  matchesCuisine_v_def matchesRating_v_def toLowerCase_def toLowerChar_def

text \<open>
  The predicate on the rating, as a function: it holds exactly when the restaurant has a
  rating and the rating is at least the minimum rating (in the older variants the rating
  must also be non-zero). A restaurant without a rating fails it at every minimum
  rating and is in no filtered list.
\<close>

lemma matchesRating_iff:
  "matchesRating s r \<longleftrightarrow> (\<exists>v. rating r = Some v \<and> minRating s \<le> v)"
  "matchesRating_v s r \<longleftrightarrow> (\<exists>v. rating r = Some v \<and> v \<noteq> 0 \<and> minRating s \<le> v)"
  by (auto simp: matchesRating_def matchesRating_v_def split: option.splits)

lemma filteredRestaurants_iff:
  "filteredRestaurants s = Inr out \<Longrightarrow>
   r \<in> set out \<longleftrightarrow>
     r \<in> set (restaurants s) \<and> (\<exists>nm. name r = Some nm \<and> matchesSearch s nm r) \<and>
     matchesCuisine s r \<and> matchesRating s r"
  "filteredRestaurants_v s = Inr out \<Longrightarrow>
   r \<in> set out \<longleftrightarrow>
     r \<in> set (restaurants s) \<and> (\<exists>nm. name r = Some nm \<and> matchesSearch_v s nm r) \<and>
     matchesCuisine_v s r \<and> matchesRating_v s r"
  by (auto simp: filteredRestaurants_def filteredRestaurants_v_def passesFilters_def
      passesFilters_v_def dest!: filterM_Inr_filter split: option.splits)

lemma unrated_never_passes:
  assumes "rating r = None"
  shows "\<not> matchesRating s r" "\<not> matchesRating_v s r"
    "filteredRestaurants s = Inr out \<Longrightarrow> r \<notin> set out"
    "filteredRestaurants_v s = Inr out \<Longrightarrow> r \<notin> set out"
  using assms by (auto simp: matchesRating_iff filteredRestaurants_iff)

section \<open>Properties of the marker synchronizer\<close>

lemma tracked_iff:
  "tracked s \<longleftrightarrow>
   (\<forall>a < length (markerHeap s). onMap (markerHeap s ! a) \<longrightarrow> a \<in> set (markersRef s))"
  by (auto simp: tracked_def list_all_iff)

lemma length_release: "length (release a h) = length h"
  by (simp add: release_def)

lemma length_releaseAll: "length (foldl (\<lambda>h a. release a h) h as) = length h"
  by (induction as arbitrary: h) (auto simp: length_release)

lemma onMap_release: "b < length h \<Longrightarrow> onMap (release a h ! b) \<longleftrightarrow> onMap (h ! b) \<and> b \<noteq> a"
  by (auto simp: release_def nth_list_update)

lemma onMap_releaseAll:
  "b < length h \<Longrightarrow>
   onMap (foldl (\<lambda>h a. release a h) h as ! b) \<longleftrightarrow> onMap (h ! b) \<and> b \<notin> set as"
  by (induction as arbitrary: h) (auto simp: length_release onMap_release)

lemma filter_none: "(\<forall>i < length xs. \<not> P (xs ! i)) \<Longrightarrow> filter P xs = []"
  by (metis filter_False in_set_conv_nth)

text \<open>After the first loop no restaurant marker is on the map.\<close>

lemma clearMarkers_live:
  assumes "tracked s"
  shows "filter onMap (markerHeap (clearMarkers s)) = []"
proof (rule filter_none, intro allI impI)
  fix i assume "i < length (markerHeap (clearMarkers s))"
  then have i: "i < length (markerHeap s)"
    by (simp add: clearMarkers_def length_releaseAll)
  with assms show "\<not> onMap (markerHeap (clearMarkers s) ! i)"
    by (auto simp: clearMarkers_def onMap_releaseAll tracked_iff)
qed

lemma addMarkers_heap:
  "markerHeap (foldl addMarker s rs) =
     markerHeap s @
     map (\<lambda>r. \<lparr> onMap = True, position = location (geometry r), title = name r \<rparr>) rs"
  by (induction rs arbitrary: s) (auto simp: addMarker_def)

lemma addMarkers_refs:
  "markersRef (foldl addMarker s rs) =
     markersRef s @ [length (markerHeap s) ..< length (markerHeap s) + length rs]"
proof (induction rs arbitrary: s)
  case Nil
  then show ?case by simp
next
  case (Cons r rs)
  have "[length (markerHeap s) ..< length (markerHeap s) + Suc (length rs)] =
        length (markerHeap s) #
        [Suc (length (markerHeap s)) ..< Suc (length (markerHeap s)) + length rs]"
    by (simp add: upt_rec)
  with Cons show ?case by (simp add: addMarker_def)
qed

lemma updateMarkers_heap:
  "markerHeap (updateMarkers rs s) =
     markerHeap (clearMarkers s) @
     map (\<lambda>r. \<lparr> onMap = True, position = location (geometry r), title = name r \<rparr>) rs"
  by (simp add: updateMarkers_def addMarkers_heap)

lemma updateMarkers_refs:
  "markersRef (updateMarkers rs s) =
     [length (markerHeap s) ..< length (markerHeap s) + length rs]"
  by (simp add: updateMarkers_def addMarkers_refs) (simp add: clearMarkers_def length_releaseAll)

lemma updateMarkers_live: "tracked s \<Longrightarrow> liveMarkers (updateMarkers rs s) = length rs"
  by (simp add: liveMarkers_def updateMarkers_heap clearMarkers_live filter_map o_def)

lemma updateMarkers_old:
  assumes "tracked s" "a < length (markerHeap s)"
  shows "\<not> onMap (markerHeap (updateMarkers rs s) ! a)"
proof -
  from assms(2) have l: "a < length (markerHeap (clearMarkers s))"
    by (simp add: clearMarkers_def length_releaseAll)
  from assms have "\<not> onMap (markerHeap (clearMarkers s) ! a)"
    by (auto simp: clearMarkers_def onMap_releaseAll tracked_iff)
  with l show ?thesis by (simp add: updateMarkers_heap nth_append)
qed

lemma updateMarkers_tracked: "tracked s \<Longrightarrow> tracked (updateMarkers rs s)"
  unfolding tracked_iff [of "updateMarkers rs s"]
proof (intro allI impI)
  fix a
  assume t: "tracked s" and a: "a < length (markerHeap (updateMarkers rs s))"
    and on: "onMap (markerHeap (updateMarkers rs s) ! a)"
  from on t have "\<not> a < length (markerHeap s)" by (auto dest: updateMarkers_old)
  moreover from a have "a < length (markerHeap s) + length rs"
    by (simp add: updateMarkers_heap clearMarkers_def length_releaseAll)
  ultimately show "a \<in> set (markersRef (updateMarkers rs s))"
    by (simp add: updateMarkers_refs)
qed

lemma tracked_initial: "tracked initialState"
  by (simp add: tracked_def initialState_def)

text \<open>
  Claim C8. In a state in which every restaurant marker on the map is held in
  \<^verbatim>\<open>markersRef\<close> (every state the component reaches), a run of the marker
  synchronizer on a list leaves as many markers on the map as the list is long, and as
  many references in \<^verbatim>\<open>markersRef\<close>. All markers that existed before are off the
  map once the first loop is over, before any new marker is created, and they stay
  off. So a second run with another list, a shorter one included, leaves exactly that
  list's markers.
\<close>

theorem marker_sync:
  assumes "tracked s"
  shows "liveMarkers (clearMarkers s) = 0 \<and>
         liveMarkers (updateMarkers rs s) = length rs \<and>
         length (markersRef (updateMarkers rs s)) = length rs \<and>
         (\<forall>a < length (markerHeap s). \<not> onMap (markerHeap (updateMarkers rs s) ! a)) \<and>
         tracked (updateMarkers rs s) \<and>
         liveMarkers (updateMarkers rs' (updateMarkers rs s)) = length rs'"
proof -
  from assms have "liveMarkers (clearMarkers s) = 0"
    by (simp add: liveMarkers_def clearMarkers_live)
  moreover from assms have "tracked (updateMarkers rs s)"
    by (rule updateMarkers_tracked)
  ultimately show ?thesis
    using assms by (simp add: updateMarkers_live updateMarkers_old updateMarkers_refs)
qed

theorem marker_sync_witness:
  "tracked initialState \<and>
   liveMarkers (updateMarkers
     [asRestaurant noodleHouse, asRestaurant pizzaPlace, asRestaurant sushiBar] initialState) = 3 \<and>
   liveMarkers (updateMarkers [asRestaurant pizzaPlace]
     (updateMarkers
        [asRestaurant noodleHouse, asRestaurant pizzaPlace, asRestaurant sushiBar]
        initialState)) = 1"
  using marker_sync [OF tracked_initial,
      of "[asRestaurant noodleHouse, asRestaurant pizzaPlace, asRestaurant sushiBar]"
         "[asRestaurant pizzaPlace]"]
    tracked_initial
  by simp

section \<open>Properties of the scheduler\<close>

declare advance.simps [simp del]

subsection \<open>What the operations leave alone\<close>

lemma searchNearby_frame [simp]:
  "timers (searchNearby d l s) = timers s"
  "mapInstance (searchNearby d l s) = mapInstance s"
  "mapCenter (searchNearby d l s) = mapCenter s"
  "now (searchNearby d l s) = now s"
  "searchTimeoutRef (searchNearby d l s) = searchTimeoutRef s"
  "nextTimer (searchNearby d l s) = nextTimer s"
  "markerHeap (searchNearby d l s) = markerHeap s"
  "markersRef (searchNearby d l s) = markersRef s"
  "restaurants (searchNearby d l s) = restaurants s"
  by (simp_all add: searchNearby_def)

lemma searchNearby_busy: "isUpdatingRef s \<Longrightarrow> searchNearby d l s = s"
  by (simp add: searchNearby_def)

lemma searchNearby_free:
  "\<not> isUpdatingRef s \<Longrightarrow>
   isUpdatingRef (searchNearby d l s) \<and>
   pending (searchNearby d l s) = pending s @ [(SearchNearby, buildRequest d l)] \<and>
   issued (searchNearby d l s) = issued s @ [(now s, buildRequest d l)]"
  by (simp add: searchNearby_def)

lemma rerender_frame [simp]:
  "pending (rerender s) = pending s"
  "issued (rerender s) = issued s"
  "isUpdatingRef (rerender s) = isUpdatingRef s"
  "now (rerender s) = now s"
  "mapInstance (rerender s) = mapInstance s"
  "mapCenter (rerender s) = mapCenter s"
  "searchTimeoutRef (rerender s) = searchTimeoutRef s"
  "nextTimer (rerender s) = nextTimer s"
  "markerHeap (rerender s) = markerHeap s"
  "markersRef (rerender s) = markersRef s"
  "restaurants (rerender s) = restaurants s"
  "loading (rerender s) = loading s"
  "error (rerender s) = error s"
  by (simp_all add: rerender_def clearTimeout_def Let_def split: option.splits)

lemma timers_rerender:
  "timers (rerender s) = timers s \<or>
   (\<exists>i. searchTimeoutRef s = Some i \<and>
        timers (rerender s) = filter (\<lambda>tm. tid tm \<noteq> i) (timers s))"
  by (simp add: rerender_def clearTimeout_def Let_def split: option.splits)

lemma commit_frame [simp]:
  "pending (commit s0 fresh s) = pending s"
  "issued (commit s0 fresh s) = issued s"
  "isUpdatingRef (commit s0 fresh s) = isUpdatingRef s"
  "now (commit s0 fresh s) = now s"
  "mapInstance (commit s0 fresh s) = mapInstance s"
  "mapCenter (commit s0 fresh s) = mapCenter s"
  "searchTimeoutRef (commit s0 fresh s) = searchTimeoutRef s"
  "nextTimer (commit s0 fresh s) = nextTimer s"
  "markerHeap (commit s0 fresh s) = markerHeap s"
  "markersRef (commit s0 fresh s) = markersRef s"
  "restaurants (commit s0 fresh s) = restaurants s"
  "loading (commit s0 fresh s) = loading s"
  "error (commit s0 fresh s) = error s"
  by (simp_all add: commit_def)

lemma commit_same [simp]: "commit s False s = s"
  by (simp add: commit_def reactChanged_def)

lemma commit_fresh: "commit s0 True s = rerender s"
  by (simp add: commit_def)

lemma timers_commit:
  "timers (commit s0 fresh s) = timers s \<or>
   (\<exists>i. searchTimeoutRef s = Some i \<and>
        timers (commit s0 fresh s) = filter (\<lambda>tm. tid tm \<noteq> i) (timers s))"
  using timers_rerender [of s] by (auto simp: commit_def)

lemma length_filter_conj: "length (filter (\<lambda>x. P x \<and> Q x) xs) \<le> length (filter Q xs)"
  by (induction xs) auto

lemma length_filter_remove1:
  "x \<in> set xs \<Longrightarrow> P x \<Longrightarrow> length (filter P (remove1 x xs)) < length (filter P xs)"
  by (induction xs) auto

lemma length_filter_remove1_le: "length (filter P (remove1 x xs)) \<le> length (filter P xs)"
  by (induction xs) auto

lemma resetTimers_commit: "length (resetTimers (commit s0 fresh s)) \<le> length (resetTimers s)"
  using timers_commit [of s0 fresh s] by (auto simp: resetTimers_def length_filter_conj)

lemma resetTimers_Nil:
  "resetTimers s = [] \<longleftrightarrow> (\<forall>tm \<in> set (timers s). action tm \<noteq> ResetUpdating)"
  by (auto simp: resetTimers_def filter_empty_conv)

lemma addMarkers_frame [simp]:
  "timers (foldl addMarker s rs) = timers s"
  "pending (foldl addMarker s rs) = pending s"
  "issued (foldl addMarker s rs) = issued s"
  "isUpdatingRef (foldl addMarker s rs) = isUpdatingRef s"
  "mapInstance (foldl addMarker s rs) = mapInstance s"
  "mapCenter (foldl addMarker s rs) = mapCenter s"
  "now (foldl addMarker s rs) = now s"
  "searchTimeoutRef (foldl addMarker s rs) = searchTimeoutRef s"
  "nextTimer (foldl addMarker s rs) = nextTimer s"
  "restaurants (foldl addMarker s rs) = restaurants s"
  "loading (foldl addMarker s rs) = loading s"
  "error (foldl addMarker s rs) = error s"
  by (induction rs arbitrary: s) (simp_all add: addMarker_def)

lemma updateMarkers_frame [simp]:
  "timers (updateMarkers rs s) = timers s"
  "pending (updateMarkers rs s) = pending s"
  "issued (updateMarkers rs s) = issued s"
  "isUpdatingRef (updateMarkers rs s) = isUpdatingRef s"
  "mapInstance (updateMarkers rs s) = mapInstance s"
  "mapCenter (updateMarkers rs s) = mapCenter s"
  "now (updateMarkers rs s) = now s"
  "searchTimeoutRef (updateMarkers rs s) = searchTimeoutRef s"
  "nextTimer (updateMarkers rs s) = nextTimer s"
  "restaurants (updateMarkers rs s) = restaurants s"
  "loading (updateMarkers rs s) = loading s"
  "error (updateMarkers rs s) = error s"
  by (simp_all add: updateMarkers_def clearMarkers_def)

text \<open>A callback that runs to its end: what it has changed besides the results.\<close>

lemma searchCallback_Inr:
  assumes "searchCallback results status s = Inr s1"
  shows "pending s1 = pending s" "issued s1 = issued s" "isUpdatingRef s1 = isUpdatingRef s"
    "mapInstance s1 = mapInstance s" "mapCenter s1 = mapCenter s" "now s1 = now s"
    "searchTimeoutRef s1 = searchTimeoutRef s"
    "timers s1 =
       timers s @ [\<lparr> tid = nextTimer s, due = now s + 1000, action = ResetUpdating \<rparr>]"
    "nextTimer s1 = Suc (nextTimer s)" "\<not> loading s1"
  using assms
  by (auto simp: searchCallback_def setTimeout_def Let_def split: if_splits sum.splits)

lemma initialCallback_Inr:
  assumes "initialCallback results status s = Inr s1"
  shows "pending s1 = pending s" "issued s1 = issued s" "isUpdatingRef s1 = isUpdatingRef s"
    "mapInstance s1 = mapInstance s" "mapCenter s1 = mapCenter s" "now s1 = now s"
    "searchTimeoutRef s1 = searchTimeoutRef s" "timers s1 = timers s"
    "nextTimer s1 = nextTimer s" "\<not> loading s1"
  using assms
  by (auto simp: initialCallback_def Let_def split: if_splits sum.splits)

subsection \<open>Timers\<close>

lemma earliest_mem: "earliest xs = Some y \<Longrightarrow> y \<in> set xs"
  by (induction xs arbitrary: y) (auto split: option.splits if_splits)

lemma earliest_None: "earliest xs = None \<longleftrightarrow> xs = []"
  by (induction xs) (auto split: option.splits)

lemma nextDue_mem: "nextDue t s = Some tm \<Longrightarrow> tm \<in> set (timers s) \<and> due tm \<le> t"
  by (auto simp: nextDue_def dest: earliest_mem)

lemma nextDue_None: "nextDue t s = None \<longleftrightarrow> (\<forall>tm \<in> set (timers s). t < due tm)"
  by (auto simp: nextDue_def earliest_None filter_empty_conv not_le)

lemma runTimer_reset:
  "action tm = ResetUpdating \<Longrightarrow>
   runTimer tm s = s\<lparr> timers := remove1 tm (timers s), now := max (now s) (due tm),
                      isUpdatingRef := False \<rparr>"
  by (simp add: runTimer_def)

lemma runTimer_debounce:
  "action tm = DebounceSearch \<Longrightarrow>
   runTimer tm s =
     (let s0 = s\<lparr> timers := remove1 tm (timers s), now := max (now s) (due tm) \<rparr> in
      case mapCenter s of
        None \<Rightarrow> s0
      | Some center \<Rightarrow> commit s0 False (searchNearby (currentDeps s) center s0))"
  by (simp add: runTimer_def Let_def currentDeps_def split: option.splits)

lemma runTimer_busy:
  "isUpdatingRef s \<Longrightarrow> action tm = DebounceSearch \<Longrightarrow>
   runTimer tm s = s\<lparr> timers := remove1 tm (timers s), now := max (now s) (due tm) \<rparr>"
  by (simp add: runTimer_debounce Let_def searchNearby_busy split: option.splits)

lemma runTimer_frame [simp]:
  "searchTimeoutRef (runTimer tm s) = searchTimeoutRef s"
  "nextTimer (runTimer tm s) = nextTimer s"
  "markerHeap (runTimer tm s) = markerHeap s"
  "markersRef (runTimer tm s) = markersRef s"
  "mapInstance (runTimer tm s) = mapInstance s"
  "mapCenter (runTimer tm s) = mapCenter s"
  "now (runTimer tm s) = max (now s) (due tm)"
  by (cases "action tm";
      simp add: runTimer_reset runTimer_debounce Let_def split: option.splits)+

lemma advance_frame [simp]:
  "searchTimeoutRef (advance t s) = searchTimeoutRef s \<and>
   nextTimer (advance t s) = nextTimer s \<and>
   markerHeap (advance t s) = markerHeap s \<and>
   markersRef (advance t s) = markersRef s \<and>
   mapInstance (advance t s) = mapInstance s \<and>
   mapCenter (advance t s) = mapCenter s"
proof (induction t s rule: advance.induct)
  case (1 t s)
  then show ?case
    by (cases "nextDue t s") (simp_all add: advance.simps [of t s])
qed

lemma now_advance: "now (advance t s) = max (now s) t"
proof (induction t s rule: advance.induct)
  case (1 t s)
  show ?case
  proof (cases "nextDue t s")
    case None
    then show ?thesis by (simp add: advance.simps [of t s])
  next
    case (Some tm)
    then have "due tm \<le> t" by (simp add: nextDue_mem)
    with Some "1.IH" show ?thesis
      by (simp add: advance.simps [of t s])
  qed
qed

text \<open>While the flag is set and no reset is due, the clock moves without any search.\<close>

lemma advance_busy:
  assumes "isUpdatingRef s" "\<forall>tm \<in> set (timers s). action tm = ResetUpdating \<longrightarrow> t < due tm"
  shows "issued (advance t s) = issued s \<and> pending (advance t s) = pending s \<and>
         isUpdatingRef (advance t s)"
  using assms
proof (induction t s rule: advance.induct)
  case (1 t s)
  show ?case
  proof (cases "nextDue t s")
    case None
    with "1.prems" show ?thesis by (simp add: advance.simps [of t s])
  next
    case (Some tm)
    then have tm: "tm \<in> set (timers s)" "due tm \<le> t" by (simp_all add: nextDue_mem)
    with "1.prems"(2) have "action tm = DebounceSearch"
      by (cases "action tm") auto
    with "1.prems"(1) have r: "runTimer tm s =
        s\<lparr> timers := remove1 tm (timers s), now := max (now s) (due tm) \<rparr>"
      by (rule runTimer_busy)
    have "\<forall>tm' \<in> set (timers (runTimer tm s)). action tm' = ResetUpdating \<longrightarrow> t < due tm'"
      using "1.prems"(2) by (auto simp: r dest: notin_set_remove1)
    with "1.IH" [OF Some] "1.prems"(1) r Some show ?thesis
      by (simp add: advance.simps [of t s])
  qed
qed

lemma withCenter_busy: "isUpdatingRef s \<Longrightarrow> withCenter (searchNearby d) s = s"
  by (simp add: withCenter_def searchNearby_busy split: option.splits)

text \<open>While the flag is set, no handler of a control issues a search.\<close>

lemma userAction_busy:
  assumes "isUpdatingRef s" "userAction a"
  shows "issued (handle a s) = issued s \<and> pending (handle a s) = pending s \<and>
         isUpdatingRef (handle a s)"
  using assms
  by (cases a)
     (simp_all add: handle_def onCuisineChange_def onRadiusChange_def onSearchClick_def
        onResetFilters_def onPlaceChanged_def withCenter_busy searchNearby_busy
        split: option.splits)

lemma step_busy:
  assumes "isUpdatingRef s" "\<forall>tm \<in> set (timers s). action tm = ResetUpdating \<longrightarrow> t < due tm"
    "userAction a"
  shows "issued (step s (t, a)) = issued s \<and> pending (step s (t, a)) = pending s \<and>
         isUpdatingRef (step s (t, a))"
  using advance_busy [OF assms(1,2)] userAction_busy [of "advance t s" a] assms(3)
  by (simp add: step_def)

subsection \<open>The guard as an invariant\<close>

lemma guarded_weaken:
  assumes "guarded s" "pending s' = pending s" "isUpdatingRef s' = isUpdatingRef s"
    "length (resetTimers s') \<le> length (resetTimers s)"
  shows "guarded s'"
  using assms by (auto simp: guarded_def searchCalls_def split: if_splits)

lemma guarded_flags:
  "guarded s \<Longrightarrow> searchCalls s \<noteq> [] \<Longrightarrow>
     isUpdatingRef s \<and> resetTimers s = [] \<and> length (searchCalls s) = 1"
  "guarded s \<Longrightarrow> resetTimers s \<noteq> [] \<Longrightarrow>
     isUpdatingRef s \<and> searchCalls s = [] \<and> length (resetTimers s) = 1"
  "guarded s \<Longrightarrow> \<not> isUpdatingRef s \<Longrightarrow> searchCalls s = [] \<and> resetTimers s = []"
  by (cases "searchCalls s"; cases "resetTimers s"; auto simp: guarded_def split: if_splits)+

lemma guarded_commit: "guarded s \<Longrightarrow> guarded (commit s0 fresh s)"
  by (rule guarded_weaken [where s = s]) (simp_all add: resetTimers_commit)

lemma guarded_searchNearby: "guarded s \<Longrightarrow> guarded (searchNearby d l s)"
  by (auto simp: guarded_def searchNearby_def resetTimers_def searchCalls_def split: if_splits)

lemma guarded_clearTimeout: "guarded s \<Longrightarrow> guarded (clearTimeout i s)"
  by (rule guarded_weaken [where s = s])
     (simp_all add: clearTimeout_def resetTimers_def length_filter_conj)

lemma guarded_runTimer:
  assumes "guarded s" "tm \<in> set (timers s)"
  shows "guarded (runTimer tm s)"
proof (cases "action tm")
  case ResetUpdating
  with assms(2)
  have less: "length (filter (\<lambda>tm. action tm = ResetUpdating) (remove1 tm (timers s)))
      < length (resetTimers s)"
    by (simp add: resetTimers_def length_filter_remove1)
  with assms(1) have "searchCalls s = [] \<and>
      filter (\<lambda>tm. action tm = ResetUpdating) (remove1 tm (timers s)) = []"
    by (cases "searchCalls s";
        cases "filter (\<lambda>tm. action tm = ResetUpdating) (remove1 tm (timers s))")
       (auto simp: guarded_def split: if_splits)
  with ResetUpdating show ?thesis
    by (simp add: runTimer_reset guarded_def resetTimers_def searchCalls_def)
next
  case DebounceSearch
  let ?s0 = "s\<lparr> timers := remove1 tm (timers s), now := max (now s) (due tm) \<rparr>"
  have "guarded ?s0"
    by (rule guarded_weaken [OF assms(1)]) (simp_all add: resetTimers_def length_filter_remove1_le)
  then show ?thesis
    by (auto simp: runTimer_debounce [OF DebounceSearch] Let_def
        intro!: guarded_commit guarded_searchNearby split: option.splits)
qed

lemma guarded_advance: "guarded s \<Longrightarrow> guarded (advance t s)"
proof (induction t s rule: advance.induct)
  case (1 t s)
  show ?case
  proof (cases "nextDue t s")
    case None
    with "1.prems" show ?thesis
      by (simp add: advance.simps [of t s] guarded_def resetTimers_def searchCalls_def)
  next
    case (Some tm)
    with "1.prems" have "guarded (runTimer tm s)"
      by (auto intro: guarded_runTimer dest: nextDue_mem)
    with Some "1.IH" show ?thesis
      by (simp add: advance.simps [of t s])
  qed
qed

text \<open>
  The reply to the search that \<^verbatim>\<open>searchNearby\<close> has in flight: the call leaves the
  list, and either the callback throws and nothing else happens, or the callback runs to
  its end and a render follows.
\<close>

lemma gatewayReply_search:
  assumes "guarded s" "searchCalls s \<noteq> []"
  shows "\<exists>p. filter (\<lambda>call. fst call = SearchNearby) p = [] \<and>
           ((\<exists>e. searchCallback results status (s\<lparr> pending := p \<rparr>) = Inl e \<and>
                 gatewayReply SearchNearby status results s = s\<lparr> pending := p \<rparr>) \<or>
            (\<exists>s1. searchCallback results status (s\<lparr> pending := p \<rparr>) = Inr s1 \<and>
                  gatewayReply SearchNearby status results s = rerender s1))"
proof -
  from assms(2) obtain call where f: "find (\<lambda>call. fst call = SearchNearby) (pending s) = Some call"
    by (cases "find (\<lambda>call. fst call = SearchNearby) (pending s)")
       (auto simp: searchCalls_def find_None_iff filter_empty_conv)
  then have "call \<in> set (searchCalls s)"
    by (auto simp: searchCalls_def find_Some_iff)
  with guarded_flags(1) [OF assms] have "searchCalls s = [call]"
    by (cases "searchCalls s") auto
  then have "filter (\<lambda>call. fst call = SearchNearby) (remove1 call (pending s)) = []"
    by (simp add: searchCalls_def filter_remove1)
  moreover have
    "(\<exists>e. searchCallback results status (s\<lparr> pending := remove1 call (pending s) \<rparr>) = Inl e \<and>
          gatewayReply SearchNearby status results s = s\<lparr> pending := remove1 call (pending s) \<rparr>) \<or>
     (\<exists>s1. searchCallback results status (s\<lparr> pending := remove1 call (pending s) \<rparr>) = Inr s1 \<and>
           gatewayReply SearchNearby status results s = rerender s1)"
    using f
    by (cases "searchCallback results status (s\<lparr> pending := remove1 call (pending s) \<rparr>)")
       (simp_all add: gatewayReply_def commit_fresh)
  ultimately show ?thesis by blast
qed

lemma guarded_gatewayReply:
  assumes "guarded s"
  shows "guarded (gatewayReply origin status results s)"
proof (cases origin)
  case SearchNearby
  show ?thesis
  proof (cases "searchCalls s = []")
    case True
    then have "find (\<lambda>call. fst call = SearchNearby) (pending s) = None"
      by (auto simp: searchCalls_def find_None_iff filter_empty_conv)
    with assms SearchNearby show ?thesis by (simp add: gatewayReply_def)
  next
    case False
    from guarded_flags(1) [OF assms False]
    have flag: "isUpdatingRef s" and nr: "resetTimers s = []" by simp_all
    from gatewayReply_search [OF assms False, of results status]
    obtain p where p: "filter (\<lambda>call. fst call = SearchNearby) p = []"
      and r: "(\<exists>e. searchCallback results status (s\<lparr> pending := p \<rparr>) = Inl e \<and>
                  gatewayReply SearchNearby status results s = s\<lparr> pending := p \<rparr>) \<or>
              (\<exists>s1. searchCallback results status (s\<lparr> pending := p \<rparr>) = Inr s1 \<and>
                  gatewayReply SearchNearby status results s = rerender s1)"
      by blast
    from r show ?thesis
    proof (elim disjE exE conjE)
      fix e
      assume "gatewayReply SearchNearby status results s = s\<lparr> pending := p \<rparr>"
      with p flag nr SearchNearby show ?thesis
        by (simp add: guarded_def searchCalls_def resetTimers_def)
    next
      fix s1
      assume cb: "searchCallback results status (s\<lparr> pending := p \<rparr>) = Inr s1"
        and g: "gatewayReply SearchNearby status results s = rerender s1"
      have "guarded s1"
        using p flag nr searchCallback_Inr [OF cb]
        by (simp add: guarded_def searchCalls_def resetTimers_def)
      then have "guarded (commit s1 True s1)" by (rule guarded_commit)
      with g SearchNearby show ?thesis by (simp add: commit_fresh)
    qed
  qed
next
  case InitialLoad
  show ?thesis
  proof (cases "find (\<lambda>call. fst call = InitialLoad) (pending s)")
    case None
    with assms InitialLoad show ?thesis by (simp add: gatewayReply_def)
  next
    case (Some call)
    then have "fst call \<noteq> SearchNearby" by (auto simp: find_Some_iff)
    then have same: "filter (\<lambda>call. fst call = SearchNearby) (remove1 call (pending s)) =
        searchCalls s"
      by (simp add: searchCalls_def filter_remove1 remove1_idem)
    let ?s0 = "s\<lparr> pending := remove1 call (pending s) \<rparr>"
    from assms same have g0: "guarded ?s0"
      by (simp add: guarded_def searchCalls_def resetTimers_def)
    show ?thesis
    proof (cases "initialCallback results status ?s0")
      case (Inl e)
      with Some InitialLoad g0 show ?thesis by (simp add: gatewayReply_def)
    next
      case (Inr s1)
      have "guarded s1"
        by (rule guarded_weaken [OF g0]) (simp_all add: initialCallback_Inr [OF Inr] resetTimers_def)
      then have "guarded (commit ?s0 (status = OK \<and> results \<noteq> None) s1)"
        by (rule guarded_commit)
      with Some InitialLoad Inr show ?thesis by (simp add: gatewayReply_def)
    qed
  qed
qed

lemma guarded_onIdle: "guarded s \<Longrightarrow> guarded (onIdle c s)"
proof -
  assume g: "guarded s"
  have g0: "guarded (s\<lparr> mapCenter := c \<rparr>)"
    by (rule guarded_weaken [OF g]) (simp_all add: resetTimers_def)
  have g1: "guarded (case searchTimeoutRef (s\<lparr> mapCenter := c \<rparr>) of
                       None \<Rightarrow> s\<lparr> mapCenter := c \<rparr>
                     | Some i \<Rightarrow> clearTimeout i (s\<lparr> mapCenter := c \<rparr>))" (is "guarded ?s1")
    using g0 by (auto split: option.splits intro: guarded_clearTimeout)
  have "guarded ((setTimeout DebounceSearch 1000 ?s1)\<lparr> searchTimeoutRef := Some (nextTimer ?s1) \<rparr>)"
    by (rule guarded_weaken [OF g1]) (simp_all add: setTimeout_def resetTimers_def)
  with g g1 show ?thesis
    by (auto simp: onIdle_def Let_def split: option.splits)
qed

lemma guarded_withCenter: "guarded s \<Longrightarrow> guarded (withCenter (searchNearby d) s)"
  by (auto simp: withCenter_def split: option.splits intro: guarded_searchNearby)

lemma guarded_handle: "guarded s \<Longrightarrow> guarded (handle e s)"
proof (cases e)
  case (Located loc)
  assume "guarded s"
  then have "guarded (onLocated loc s)"
    by (auto simp: onLocated_def guarded_def searchCalls_def resetTimers_def split: if_splits)
  then show ?thesis using Located by (simp add: handle_def guarded_commit)
next
  case (Idle c)
  assume "guarded s"
  then show ?thesis using Idle by (simp add: handle_def guarded_commit guarded_onIdle)
next
  case (SearchTermChange v)
  assume g: "guarded s"
  have "guarded (s\<lparr> searchTerm := v \<rparr>)"
    by (rule guarded_weaken [OF g]) (simp_all add: resetTimers_def)
  then show ?thesis using SearchTermChange by (simp add: handle_def guarded_commit)
next
  case (CuisineChange v)
  assume g: "guarded s"
  have "guarded (s\<lparr> cuisineFilter := v \<rparr>)"
    by (rule guarded_weaken [OF g]) (simp_all add: resetTimers_def)
  then show ?thesis using CuisineChange
    by (simp add: handle_def onCuisineChange_def guarded_commit guarded_withCenter)
next
  case (MinRatingChange v)
  assume g: "guarded s"
  have "guarded (s\<lparr> minRating := v \<rparr>)"
    by (rule guarded_weaken [OF g]) (simp_all add: resetTimers_def)
  then show ?thesis using MinRatingChange by (simp add: handle_def guarded_commit)
next
  case (RadiusChange meters)
  assume g: "guarded s"
  have "guarded (s\<lparr> searchRadius := meters \<rparr>)"
    by (rule guarded_weaken [OF g]) (simp_all add: resetTimers_def)
  then show ?thesis using RadiusChange
    by (simp add: handle_def onRadiusChange_def guarded_commit guarded_withCenter)
next
  case SearchClick
  assume "guarded s"
  then show ?thesis using SearchClick
    by (simp add: handle_def onSearchClick_def guarded_commit guarded_withCenter)
next
  case ResetFilters
  assume g: "guarded s"
  have "guarded (s\<lparr> searchTerm := [], cuisineFilter := [], minRating := 0 \<rparr>)"
    by (rule guarded_weaken [OF g]) (simp_all add: resetTimers_def)
  then show ?thesis using ResetFilters
    by (simp add: handle_def onResetFilters_def guarded_commit guarded_withCenter)
next
  case (PlaceChanged place)
  assume g: "guarded s"
  have "guarded (s\<lparr> mapCenter := c, searchTerm := v \<rparr>)" for c v
    by (rule guarded_weaken [OF g]) (simp_all add: resetTimers_def)
  then have "guarded (onPlaceChanged place s)"
    using g by (auto simp: onPlaceChanged_def split: option.splits intro!: guarded_searchNearby)
  then show ?thesis using PlaceChanged by (simp add: handle_def guarded_commit)
next
  case (Reply origin status results)
  assume "guarded s"
  then show ?thesis using Reply by (simp add: handle_def guarded_gatewayReply)
qed

lemma guarded_step: "guarded s \<Longrightarrow> guarded (step s te)"
  by (simp add: step_def guarded_handle guarded_advance)

lemma guarded_run: "guarded s \<Longrightarrow> guarded (run s tes)"
  unfolding run_def by (induction tes arbitrary: s) (simp_all add: guarded_step)

lemma guarded_initial: "guarded initialState"
  by (simp add: guarded_def initialState_def searchCalls_def resetTimers_def)

subsection \<open>Further invariants of the reachable states\<close>

lemma gatewayReply_frame [simp]:
  "mapInstance (gatewayReply origin status results s) = mapInstance s"
  "mapCenter (gatewayReply origin status results s) = mapCenter s"
  by (auto simp: gatewayReply_def Let_def split: option.splits sum.splits Origin.splits
      dest: searchCallback_Inr(4,5) initialCallback_Inr(4,5))

lemma issued_gatewayReply [simp]: "issued (gatewayReply origin status results s) = issued s"
  by (auto simp: gatewayReply_def Let_def split: option.splits sum.splits Origin.splits
      dest: searchCallback_Inr(2) initialCallback_Inr(2))

lemma pending_gatewayReply:
  "set (pending (gatewayReply origin status results s)) \<subseteq> set (pending s)"
  by (auto simp: gatewayReply_def Let_def split: option.splits sum.splits Origin.splits
      dest!: searchCallback_Inr(1) initialCallback_Inr(1)
      dest: set_remove1_subset [THEN subsetD])

text \<open>Once the load effect is over, it stays over.\<close>

lemma loadOver_iff:
  "loadOver s \<longleftrightarrow> mapInstance s \<noteq> None \<and> (\<forall>call \<in> set (pending s). fst call = SearchNearby)"
  by (auto simp: loadOver_def searchCalls_def filter_id_conv)

lemma loadOver_searchNearby: "loadOver s \<Longrightarrow> loadOver (searchNearby d l s)"
  by (auto simp: loadOver_iff searchNearby_def)

lemma loadOver_runTimer: "loadOver s \<Longrightarrow> loadOver (runTimer tm s)"
proof (cases "action tm")
  case DebounceSearch
  assume l: "loadOver s"
  then have "loadOver (s\<lparr> timers := remove1 tm (timers s), now := max (now s) (due tm) \<rparr>)"
    by (simp add: loadOver_iff)
  then have "loadOver (searchNearby (currentDeps s) c
      (s\<lparr> timers := remove1 tm (timers s), now := max (now s) (due tm) \<rparr>))" for c
    by (rule loadOver_searchNearby)
  then show ?thesis using l DebounceSearch
    by (auto simp: runTimer_debounce Let_def loadOver_iff split: option.splits)
next
  case ResetUpdating
  assume "loadOver s"
  then show ?thesis using ResetUpdating by (simp add: runTimer_reset loadOver_iff)
qed

lemma loadOver_advance: "loadOver s \<Longrightarrow> loadOver (advance t s)"
proof (induction t s rule: advance.induct)
  case (1 t s)
  show ?case
  proof (cases "nextDue t s")
    case None
    with "1.prems" show ?thesis by (simp add: advance.simps [of t s] loadOver_iff)
  next
    case (Some tm)
    with "1.IH" [OF Some loadOver_runTimer [OF "1.prems"]] show ?thesis
      by (simp add: advance.simps [of t s])
  qed
qed

lemma loadOver_handle: "loadOver s \<Longrightarrow> loadOver (handle e s)"
proof (cases e)
  case (Reply origin status results)
  assume "loadOver s"
  then show ?thesis using Reply pending_gatewayReply [of origin status results s]
    by (auto simp: handle_def loadOver_iff)
next
  case (PlaceChanged place)
  assume l: "loadOver s"
  have "loadOver (s\<lparr> mapCenter := c, searchTerm := v \<rparr>)" for c v
    using l by (simp add: loadOver_iff)
  then have "loadOver (onPlaceChanged place s)"
    using l by (auto simp: onPlaceChanged_def split: option.splits intro!: loadOver_searchNearby)
  then show ?thesis using PlaceChanged by (simp add: handle_def loadOver_iff)
qed (auto simp: handle_def loadOver_iff onLocated_def onIdle_def Let_def setTimeout_def
      clearTimeout_def onCuisineChange_def onRadiusChange_def onSearchClick_def
      onResetFilters_def withCenter_def searchNearby_def split: option.splits)

lemma loadOver_run: "loadOver s \<Longrightarrow> loadOver (run s tes)"
  unfolding run_def
  by (induction tes arbitrary: s) (simp_all add: step_def loadOver_handle loadOver_advance)

text \<open>The map has a center only if there is a map.\<close>

lemma centered_handle:
  "(mapCenter s \<noteq> None \<longrightarrow> mapInstance s \<noteq> None) \<Longrightarrow>
   mapCenter (handle e s) \<noteq> None \<longrightarrow> mapInstance (handle e s) \<noteq> None"
  by (cases e)
     (auto simp: handle_def onLocated_def onIdle_def Let_def setTimeout_def clearTimeout_def
        onCuisineChange_def onRadiusChange_def onSearchClick_def onResetFilters_def
        onPlaceChanged_def withCenter_def split: option.splits)

lemma centered_run:
  "(mapCenter s \<noteq> None \<longrightarrow> mapInstance s \<noteq> None) \<Longrightarrow>
   mapCenter (run s tes) \<noteq> None \<longrightarrow> mapInstance (run s tes) \<noteq> None"
  unfolding run_def
proof (induction tes arbitrary: s)
  case Nil
  then show ?case by simp
next
  case (Cons te tes)
  have "mapCenter (step s te) \<noteq> None \<longrightarrow> mapInstance (step s te) \<noteq> None"
    unfolding step_def by (rule centered_handle) (use Cons.prems in simp)
  with Cons.IH show ?case by simp
qed

text \<open>The marker invariant along a run.\<close>

lemma tracked_cong:
  "markerHeap s' = markerHeap s \<Longrightarrow> markersRef s' = markersRef s \<Longrightarrow> tracked s' = tracked s"
  by (simp add: tracked_def)

lemma tracked_ops [simp]:
  "tracked (searchNearby d l s) = tracked s"
  "tracked (rerender s) = tracked s"
  "tracked (commit s0 fresh s) = tracked s"
  "tracked (advance t s) = tracked s"
  "tracked (setTimeout act delay s) = tracked s"
  "tracked (clearTimeout i s) = tracked s"
  by (rule tracked_cong; simp add: setTimeout_def clearTimeout_def)+

lemma tracked_upd [simp]:
  "tracked (s\<lparr> restaurants := rs \<rparr>) = tracked s"
  "tracked (s\<lparr> loading := b \<rparr>) = tracked s"
  "tracked (s\<lparr> error := e \<rparr>) = tracked s"
  "tracked (s\<lparr> pending := p \<rparr>) = tracked s"
  "tracked (s\<lparr> issued := q \<rparr>) = tracked s"
  "tracked (s\<lparr> searchTerm := v \<rparr>) = tracked s"
  "tracked (s\<lparr> cuisineFilter := v \<rparr>) = tracked s"
  "tracked (s\<lparr> minRating := m \<rparr>) = tracked s"
  "tracked (s\<lparr> searchRadius := n \<rparr>) = tracked s"
  "tracked (s\<lparr> mapCenter := c \<rparr>) = tracked s"
  "tracked (s\<lparr> mapInstance := mi \<rparr>) = tracked s"
  "tracked (s\<lparr> mapLoaded := b \<rparr>) = tracked s"
  "tracked (s\<lparr> searchTimeoutRef := r \<rparr>) = tracked s"
  by (simp_all add: tracked_def)

lemma tracked_callbacks:
  "tracked s \<Longrightarrow> searchCallback results status s = Inr s1 \<Longrightarrow> tracked s1"
  "tracked s \<Longrightarrow> initialCallback results status s = Inr s1 \<Longrightarrow> tracked s1"
  by (auto simp: searchCallback_def initialCallback_def Let_def
      split: if_splits sum.splits intro!: updateMarkers_tracked)

lemma tracked_handle: "tracked s \<Longrightarrow> tracked (handle e s)"
proof (cases e)
  case (Reply origin status results)
  assume "tracked s"
  then show ?thesis using Reply
    by (cases origin)
       (auto simp: handle_def gatewayReply_def Let_def split: option.splits sum.splits
          dest: tracked_callbacks [rotated])
qed (auto simp: handle_def onLocated_def onIdle_def Let_def onCuisineChange_def
      onRadiusChange_def onSearchClick_def onResetFilters_def onPlaceChanged_def withCenter_def
      split: option.splits)

lemma tracked_run: "tracked s \<Longrightarrow> tracked (run s tes)"
  unfolding run_def by (induction tes arbitrary: s) (simp_all add: step_def tracked_handle)

text \<open>The timer ids along a run.\<close>

lemma freshIds_cong:
  "searchTimeoutRef s' = searchTimeoutRef s \<Longrightarrow> nextTimer s \<le> nextTimer s' \<Longrightarrow>
   freshIds s \<Longrightarrow> freshIds s'"
  by (auto simp: freshIds_def split: option.splits)

lemma freshIds_callbacks:
  "freshIds s \<Longrightarrow> searchCallback results status s = Inr s1 \<Longrightarrow> freshIds s1"
  "freshIds s \<Longrightarrow> initialCallback results status s = Inr s1 \<Longrightarrow> freshIds s1"
  by (auto elim!: freshIds_cong [rotated 2] dest: searchCallback_Inr(7,9) initialCallback_Inr(7,9))

lemma freshIds_handle: "freshIds s \<Longrightarrow> freshIds (handle e s)"
proof (cases e)
  case (Reply origin status results)
  assume f: "freshIds s"
  have f0: "freshIds (s\<lparr> pending := p \<rparr>)" for p
    by (rule freshIds_cong [OF _ _ f]) simp_all
  have "freshIds (rerender s1)" if "freshIds s1" for s1
    by (rule freshIds_cong [OF _ _ that]) simp_all
  moreover have "freshIds (commit s0 fresh s1)" if "freshIds s1" for s0 fresh s1
    by (rule freshIds_cong [OF _ _ that]) simp_all
  ultimately show ?thesis using Reply f f0
    by (cases origin)
       (auto simp: handle_def gatewayReply_def Let_def split: option.splits sum.splits
          dest: freshIds_callbacks [rotated])
next
  case (Idle c)
  assume "freshIds s"
  then show ?thesis using Idle
    by (auto simp: handle_def onIdle_def Let_def freshIds_def setTimeout_def clearTimeout_def
        commit_def rerender_def split: option.splits)
qed (auto simp: handle_def onLocated_def onCuisineChange_def
      onRadiusChange_def onSearchClick_def onResetFilters_def onPlaceChanged_def withCenter_def
      freshIds_def split: option.splits)

lemma freshIds_run: "freshIds s \<Longrightarrow> freshIds (run s tes)"
  unfolding run_def
proof (induction tes arbitrary: s)
  case Nil
  then show ?case by simp
next
  case (Cons te tes)
  have "freshIds (advance (fst te) s)"
    by (rule freshIds_cong [OF _ _ Cons.prems]) simp_all
  then have "freshIds (step s te)" by (simp add: step_def freshIds_handle)
  with Cons.IH show ?case by simp
qed

text \<open>All of them hold in every state the component reaches from its mount.\<close>

lemma reachable_invariants:
  "guarded (run initialState tes)"
  "tracked (run initialState tes)"
  "freshIds (run initialState tes)"
  "mapCenter (run initialState tes) \<noteq> None \<longrightarrow> mapInstance (run initialState tes) \<noteq> None"
proof -
  show "guarded (run initialState tes)" by (rule guarded_run [OF guarded_initial])
  show "tracked (run initialState tes)" by (rule tracked_run [OF tracked_initial])
  show "freshIds (run initialState tes)"
    by (rule freshIds_run) (simp add: freshIds_def initialState_def)
  show "mapCenter (run initialState tes) \<noteq> None \<longrightarrow> mapInstance (run initialState tes) \<noteq> None"
    by (rule centered_run) (simp add: initialState_def)
qed

lemma run_append: "run s (tes @ tes') = run (run s tes) tes'"
  by (simp add: run_def)

subsection \<open>Concrete runs\<close>

lemmas sched_defs = run_def step_def handle_def onLocated_def onIdle_def withCenter_def
  onCuisineChange_def onRadiusChange_def onSearchClick_def onResetFilters_def onPlaceChanged_def
  gatewayReply_def initialCallback_def searchCallback_def commit_def reactChanged_def rerender_def
  clearTimeout_def setTimeout_def searchNearby_def currentDeps_def runTimer_def nextDue_def
  updateMarkers_def clearMarkers_def addMarker_def release_def initialRequest_def buildRequest_def
  jsOr_def Let_def

lemma readyState_eq:
  "readyState =
     \<lparr> restaurants = [], loading = False, error = None, mapLoaded = True,
       mapInstance = Some 0, searchTerm = [], cuisineFilter = [], minRating = 0,
       searchRadius = 24140,
       autocompleteRef =
         Some \<lparr> depSearchTerm = [], depSearchRadius = 24140, depCuisineFilter = [] \<rparr>,
       markersRef = [], searchTimeoutRef = None, isUpdatingRef = False,
       mapCenter = Some \<lparr> lat = 1, lng = 1 \<rparr>, markerHeap = [], now = 0, timers = [],
       nextTimer = 0, pending = [],
       issued =
         [(0, \<lparr> PlaceSearchRequest.location = \<lparr> lat = 1, lng = 1 \<rparr>, radius = 24140,
                type = ''restaurant'', rankBy = PROMINENCE, keyword = None \<rparr>)] \<rparr>"
  by (simp add: readyState_def sched_defs initialState_def advance.simps normalizer_defs)

lemma readyState_reachable:
  "run readyState tes =
   run initialState
     ([(0, Located \<lparr> lat = 1, lng = 1 \<rparr>), (0, Reply InitialLoad OK (Some []))] @ tes)"
  unfolding run_append readyState_def ..

text \<open>
  What the exception of claim C2 does to the component: the callback dies before it
  clears the loading state and before it sets the timer that resets the flag, so the
  flag stays set and no later action searches again.
\<close>

lemma callback_dies_without_geometry:
  "loading (run readyState
     [(100, SearchClick), (400, Reply SearchNearby OK (Some [pizzaPlace, noGeometry]))]) \<and>
   isUpdatingRef (run readyState
     [(100, SearchClick), (400, Reply SearchNearby OK (Some [pizzaPlace, noGeometry]))]) \<and>
   timers (run readyState
     [(100, SearchClick), (400, Reply SearchNearby OK (Some [pizzaPlace, noGeometry]))]) = [] \<and>
   map fst (issued (run readyState
     [(100, SearchClick), (400, Reply SearchNearby OK (Some [pizzaPlace, noGeometry])),
      (60000, SearchClick)])) = [0, 100]"
  by (simp add: readyState_eq sched_defs advance.simps normalizer_defs example_defs)

subsection \<open>The in-flight guard\<close>

text \<open>
  Claim C6, as stated, fails. The load effect calls \<^verbatim>\<open>nearbySearch\<close> itself and
  does not set the flag: while that first search is in flight the flag is clear, and a
  click on the Search button 100 ms later issues a second gateway call next to it.
\<close>

theorem search_during_load_counterexample:
  "length (pending (run initialState [(0, Located \<lparr> lat = 1, lng = 1 \<rparr>)])) = 1 \<and>
   \<not> isUpdatingRef (run initialState [(0, Located \<lparr> lat = 1, lng = 1 \<rparr>)]) \<and>
   length (pending (run initialState
     [(0, Located \<lparr> lat = 1, lng = 1 \<rparr>), (100, SearchClick)])) = 2"
  by (simp add: sched_defs initialState_def advance.simps)

text \<open>
  Claim C6, amended. In every state the component reaches from its mount, at most one
  gateway call issued by \<^verbatim>\<open>searchNearby\<close> is in flight; once the load effect is
  over (the map exists and the effect's own search has returned), it stays over and at
  most one gateway call is in flight at all. And while a call of
  \<^verbatim>\<open>searchNearby\<close> is in flight, no action at the controls (the Search button,
  a change of cuisine, radius, search term or minimum rating, the reset button, an
  autocomplete selection), at whatever time, issues a gateway call: the calls in flight
  and the log of issued calls stay as they are.
\<close>

theorem one_search_in_flight:
  "length (searchCalls (run initialState tes)) \<le> 1 \<and>
   (loadOver (run initialState tes) \<longrightarrow>
      length (pending (run initialState tes)) \<le> 1 \<and>
      loadOver (run initialState (tes @ tes'))) \<and>
   (searchCalls (run initialState tes) \<noteq> [] \<longrightarrow>
      (\<forall>t a. userAction a \<longrightarrow>
         pending (step (run initialState tes) (t, a)) = pending (run initialState tes) \<and>
         issued (step (run initialState tes) (t, a)) = issued (run initialState tes)))"
proof -
  let ?s = "run initialState tes"
  have g: "guarded ?s" by (rule reachable_invariants)
  then have le: "length (searchCalls ?s) \<le> 1"
    by (auto simp: guarded_def split: if_splits)
  have lo: "length (pending ?s) \<le> 1 \<and> loadOver (run initialState (tes @ tes'))"
    if "loadOver ?s"
    using that le loadOver_run [OF that, of tes'] by (simp add: loadOver_def run_append)
  have "pending (step ?s (t, a)) = pending ?s \<and> issued (step ?s (t, a)) = issued ?s"
    if ne: "searchCalls ?s \<noteq> []" and a: "userAction a" for t a
  proof -
    from guarded_flags(1) [OF g ne]
    have "isUpdatingRef ?s"
      and "\<forall>tm \<in> set (timers ?s). action tm = ResetUpdating \<longrightarrow> t < due tm"
      by (simp_all add: resetTimers_Nil)
    from step_busy [OF this a] show ?thesis by simp
  qed
  with le lo show ?thesis by blast
qed

theorem one_search_in_flight_witness:
  "loadOver (run initialState
     [(0, Located \<lparr> lat = 1, lng = 1 \<rparr>), (0, Reply InitialLoad OK (Some [])), (100, SearchClick)]) \<and>
   length (pending (run initialState
     [(0, Located \<lparr> lat = 1, lng = 1 \<rparr>), (0, Reply InitialLoad OK (Some [])), (100, SearchClick)])) = 1 \<and>
   searchCalls (run initialState
     [(0, Located \<lparr> lat = 1, lng = 1 \<rparr>), (0, Reply InitialLoad OK (Some [])), (100, SearchClick)]) \<noteq> [] \<and>
   userAction SearchClick \<and>
   pending (step (run initialState
     [(0, Located \<lparr> lat = 1, lng = 1 \<rparr>), (0, Reply InitialLoad OK (Some [])), (100, SearchClick)])
     (150, SearchClick)) =
   pending (run initialState
     [(0, Located \<lparr> lat = 1, lng = 1 \<rparr>), (0, Reply InitialLoad OK (Some [])), (100, SearchClick)]) \<and>
   issued (step (run initialState
     [(0, Located \<lparr> lat = 1, lng = 1 \<rparr>), (0, Reply InitialLoad OK (Some [])), (100, SearchClick)])
     (150, SearchClick)) =
   issued (run initialState
     [(0, Located \<lparr> lat = 1, lng = 1 \<rparr>), (0, Reply InitialLoad OK (Some [])), (100, SearchClick)])"
proof -
  let ?tes = "[(0, Located \<lparr> lat = 1, lng = 1 \<rparr>), (0, Reply InitialLoad OK (Some [])),
    (100, SearchClick)]"
  have r: "run initialState ?tes = run readyState [(100, SearchClick)]"
    by (simp add: readyState_reachable)
  have p: "pending (run readyState [(100, SearchClick)]) =
      [(SearchNearby, buildRequest (currentDeps readyState) \<lparr> lat = 1, lng = 1 \<rparr>)]"
    "mapInstance (run readyState [(100, SearchClick)]) = Some 0"
    by (simp_all add: readyState_eq sched_defs advance.simps)
  then have h: "loadOver (run initialState ?tes)" "length (pending (run initialState ?tes)) = 1"
    "searchCalls (run initialState ?tes) \<noteq> []"
    by (simp_all add: r loadOver_def searchCalls_def)
  from one_search_in_flight [of ?tes "[]"] h show ?thesis by simp
qed

subsection \<open>The cooldown\<close>

text \<open>
  The reply to the search of \<^verbatim>\<open>searchNearby\<close> leaves the flag set, and the only
  timer that can reset the flag is due one second later.
\<close>

lemma reply_starts_cooldown:
  assumes "guarded s" "searchCalls s \<noteq> []"
  shows "searchCalls (gatewayReply SearchNearby status results s) = [] \<and>
         issued (gatewayReply SearchNearby status results s) = issued s \<and>
         isUpdatingRef (gatewayReply SearchNearby status results s) \<and>
         (\<forall>tm \<in> set (timers (gatewayReply SearchNearby status results s)).
            action tm = ResetUpdating \<longrightarrow> due tm = now s + 1000)"
proof -
  from guarded_flags(1) [OF assms] have flag: "isUpdatingRef s" and nr: "resetTimers s = []"
    by simp_all
  from gatewayReply_search [OF assms, of results status]
  obtain p where p: "filter (\<lambda>call. fst call = SearchNearby) p = []"
    and r: "(\<exists>e. searchCallback results status (s\<lparr> pending := p \<rparr>) = Inl e \<and>
                gatewayReply SearchNearby status results s = s\<lparr> pending := p \<rparr>) \<or>
            (\<exists>s1. searchCallback results status (s\<lparr> pending := p \<rparr>) = Inr s1 \<and>
                gatewayReply SearchNearby status results s = rerender s1)"
    by blast
  from r show ?thesis
  proof (elim disjE exE conjE)
    fix e
    assume "gatewayReply SearchNearby status results s = s\<lparr> pending := p \<rparr>"
    with flag nr p show ?thesis by (simp add: resetTimers_Nil searchCalls_def)
  next
    fix s1
    assume cb: "searchCallback results status (s\<lparr> pending := p \<rparr>) = Inr s1"
      and g: "gatewayReply SearchNearby status results s = rerender s1"
    note f = searchCallback_Inr [OF cb]
    have "set (timers (rerender s1)) \<subseteq> set (timers s1)"
      using timers_rerender [of s1] by auto
    with nr f(8) have "\<forall>tm \<in> set (timers (rerender s1)).
        action tm = ResetUpdating \<longrightarrow> due tm = now s + 1000"
      by (auto simp: resetTimers_Nil)
    with g f flag p show ?thesis by (simp add: searchCalls_def)
  qed
qed

lemma isUpdatingRef_gatewayReply [simp]:
  "isUpdatingRef (gatewayReply origin status results s) = isUpdatingRef s"
  by (auto simp: gatewayReply_def Let_def split: option.splits sum.splits Origin.splits
      dest: searchCallback_Inr(3) initialCallback_Inr(3))

text \<open>The flag is set only once the map exists.\<close>

lemma mapBound_runTimer: "mapBound s \<Longrightarrow> mapBound (runTimer tm s)"
  by (cases "action tm")
     (auto simp: mapBound_def runTimer_reset runTimer_debounce Let_def split: option.splits)

lemma mapBound_advance: "mapBound s \<Longrightarrow> mapBound (advance t s)"
proof (induction t s rule: advance.induct)
  case (1 t s)
  show ?case
  proof (cases "nextDue t s")
    case None
    with "1.prems" show ?thesis by (simp add: advance.simps [of t s] mapBound_def)
  next
    case (Some tm)
    with "1.IH" [OF Some mapBound_runTimer [OF "1.prems"]] show ?thesis
      by (simp add: advance.simps [of t s])
  qed
qed

lemma mapBound_handle: "mapBound s \<Longrightarrow> mapBound (handle e s)"
  by (cases e)
     (auto simp: mapBound_def handle_def onLocated_def onIdle_def Let_def setTimeout_def
        clearTimeout_def onCuisineChange_def onRadiusChange_def onSearchClick_def
        onResetFilters_def onPlaceChanged_def withCenter_def searchNearby_def
        split: option.splits)

lemma mapBound_run: "mapBound s \<Longrightarrow> mapBound (run s tes)"
  unfolding run_def
  by (induction tes arbitrary: s) (simp_all add: step_def mapBound_handle mapBound_advance)

lemma mapBound_initial: "mapBound initialState"
  by (simp add: mapBound_def initialState_def)

text \<open>
  The cooldown is kept by the clock, as long as it stays before \<open>D\<close>, and by every
  event; neither issues a search.
\<close>

lemma cooling_advance:
  assumes "cooling D s" "t < D"
  shows "cooling D (advance t s) \<and> issued (advance t s) = issued s"
  using assms
proof (induction t s rule: advance.induct)
  case (1 t s)
  from "1.prems"(1) have c: "isUpdatingRef s" "mapInstance s \<noteq> None" "searchCalls s = []"
    "\<forall>tm \<in> set (timers s). action tm = ResetUpdating \<longrightarrow> D \<le> due tm"
    by (simp_all add: cooling_def list_all_iff)
  show ?case
  proof (cases "nextDue t s")
    case None
    with "1.prems"(1) show ?thesis
      by (simp add: advance.simps [of t s] cooling_def searchCalls_def)
  next
    case (Some tm)
    then have tm: "tm \<in> set (timers s)" "due tm \<le> t" by (simp_all add: nextDue_mem)
    have "action tm \<noteq> ResetUpdating"
    proof
      assume "action tm = ResetUpdating"
      with c(4) tm(1) have "D \<le> due tm" by blast
      with tm(2) "1.prems"(2) show False by simp
    qed
    then have "action tm = DebounceSearch"
      by (cases "action tm") simp_all
    with c(1) have r: "runTimer tm s =
        s\<lparr> timers := remove1 tm (timers s), now := max (now s) (due tm) \<rparr>"
      by (rule runTimer_busy)
    have "cooling D (runTimer tm s)"
      using c by (auto simp: r cooling_def searchCalls_def list_all_iff dest: notin_set_remove1)
    with "1.IH" [OF Some _ "1.prems"(2)] r Some show ?thesis
      by (simp add: advance.simps [of t s])
  qed
qed

lemma cooling_commit: "cooling D s \<Longrightarrow> cooling D (commit s0 fresh s)"
  using timers_commit [of s0 fresh s]
  by (auto simp: cooling_def searchCalls_def list_all_iff)

lemma cooling_handle:
  assumes "cooling D s"
  shows "cooling D (handle e s) \<and> issued (handle e s) = issued s"
proof -
  from assms have c: "isUpdatingRef s" "mapInstance s \<noteq> None" "searchCalls s = []"
    "\<forall>tm \<in> set (timers s). action tm = ResetUpdating \<longrightarrow> D \<le> due tm"
    by (simp_all add: cooling_def list_all_iff)
  have upd: "cooling D (s\<lparr> searchTerm := a \<rparr>)" "cooling D (s\<lparr> cuisineFilter := a \<rparr>)"
    "cooling D (s\<lparr> minRating := m \<rparr>)" "cooling D (s\<lparr> searchRadius := n \<rparr>)"
    "cooling D (s\<lparr> searchTerm := a, cuisineFilter := b, minRating := m \<rparr>)"
    "cooling D (s\<lparr> mapCenter := mc, searchTerm := a \<rparr>)"
    for a b m n mc
    using assms by (simp_all add: cooling_def searchCalls_def)
  show ?thesis
  proof (cases e)
    case (Located loc)
    with c assms show ?thesis by (simp add: handle_def onLocated_def)
  next
    case (Idle cen)
    have "cooling D (onIdle cen s)" "issued (onIdle cen s) = issued s"
      using c by (auto simp: onIdle_def Let_def clearTimeout_def cooling_def searchCalls_def
          list_all_iff split: option.splits)
    with Idle show ?thesis by (simp add: handle_def cooling_commit)
  next
    case (SearchTermChange v)
    with upd show ?thesis by (simp add: handle_def cooling_commit)
  next
    case (CuisineChange v)
    with upd c show ?thesis
      by (simp add: handle_def cooling_commit onCuisineChange_def withCenter_busy)
  next
    case (MinRatingChange v)
    with upd show ?thesis by (simp add: handle_def cooling_commit)
  next
    case (RadiusChange meters)
    with upd c show ?thesis
      by (simp add: handle_def cooling_commit onRadiusChange_def withCenter_busy)
  next
    case SearchClick
    with assms c show ?thesis
      by (simp add: handle_def cooling_commit onSearchClick_def withCenter_busy)
  next
    case ResetFilters
    with upd c show ?thesis
      by (simp add: handle_def cooling_commit onResetFilters_def withCenter_busy)
  next
    case (PlaceChanged place)
    have "cooling D (onPlaceChanged place s)" "issued (onPlaceChanged place s) = issued s"
      using upd(6) assms c
      by (auto simp: onPlaceChanged_def searchNearby_busy split: option.splits)
    with PlaceChanged show ?thesis by (simp add: handle_def cooling_commit)
  next
    case (Reply origin status results)
    show ?thesis
    proof (cases origin)
      case SearchNearby
      from c(3) have "find (\<lambda>call. fst call = SearchNearby) (pending s) = None"
        by (auto simp: searchCalls_def find_None_iff filter_empty_conv)
      with Reply SearchNearby assms show ?thesis
        by (simp add: handle_def gatewayReply_def)
    next
      case InitialLoad
      have sub: "set (pending (gatewayReply InitialLoad status results s)) \<subseteq> set (pending s)"
        by (rule pending_gatewayReply)
      have tm: "set (timers (gatewayReply InitialLoad status results s)) \<subseteq> set (timers s)"
      proof (cases "find (\<lambda>call. fst call = InitialLoad) (pending s)")
        case None
        then show ?thesis by (simp add: gatewayReply_def)
      next
        case (Some call)
        show ?thesis
        proof (cases "initialCallback results status (s\<lparr> pending := remove1 call (pending s) \<rparr>)")
          case (Inl e)
          with Some show ?thesis by (simp add: gatewayReply_def Let_def)
        next
          case (Inr s1)
          from timers_commit [of "s\<lparr> pending := remove1 call (pending s) \<rparr>"
              "status = OK \<and> results \<noteq> None" s1] initialCallback_Inr(8) [OF Inr]
          have "set (timers (commit (s\<lparr> pending := remove1 call (pending s) \<rparr>)
              (status = OK \<and> results \<noteq> None) s1)) \<subseteq> set (timers s)"
            by auto
          with Some Inr show ?thesis by (simp add: gatewayReply_def Let_def)
        qed
      qed
      from sub c(3) have "searchCalls (gatewayReply InitialLoad status results s) = []"
        by (auto simp: searchCalls_def filter_empty_conv)
      with tm c Reply InitialLoad show ?thesis
        by (auto simp: handle_def cooling_def list_all_iff)
    qed
  qed
qed

lemma cooling_step:
  "cooling D s \<Longrightarrow> fst te < D \<Longrightarrow>
   cooling D (step s te) \<and> issued (step s te) = issued s"
  using cooling_advance [of D s "fst te"] cooling_handle [of D "advance (fst te) s" "snd te"]
  by (simp add: step_def)

lemma cooling_run:
  "cooling D s \<Longrightarrow> \<forall>te \<in> set tes. fst te < D \<Longrightarrow>
   cooling D (run s tes) \<and> issued (run s tes) = issued s"
  unfolding run_def
proof (induction tes arbitrary: s)
  case Nil
  then show ?case by simp
next
  case (Cons te tes)
  from cooling_step [OF Cons.prems(1), of te] Cons.prems(2)
  have "cooling D (step s te)" "issued (step s te) = issued s" by simp_all
  with Cons.IH [of "step s te"] Cons.prems(2) show ?case by simp
qed

text \<open>The reply to a search of \<^verbatim>\<open>searchNearby\<close> at \<open>t0\<close> starts a cooldown up to \<open>t0 + 1000\<close>.\<close>

lemma reply_cooling:
  assumes "guarded s" "mapBound s" "searchCalls s \<noteq> []"
  shows "cooling (t0 + 1000) (step s (t0, Reply SearchNearby status results))"
proof -
  let ?s' = "advance t0 s"
  from guarded_flags(1) [OF assms(1,3)]
  have f: "isUpdatingRef s" "\<forall>tm \<in> set (timers s). action tm = ResetUpdating \<longrightarrow> t0 < due tm"
    by (simp_all add: resetTimers_Nil)
  from advance_busy [OF f] assms(3) have ne: "searchCalls ?s' \<noteq> []"
    by (simp add: searchCalls_def)
  have g: "guarded ?s'" using assms(1) by (rule guarded_advance)
  have "mapBound ?s'" using assms(2) by (rule mapBound_advance)
  moreover have "isUpdatingRef ?s'" using advance_busy [OF f] by simp
  ultimately have m: "mapInstance ?s' \<noteq> None" by (auto simp: mapBound_def)
  have n: "t0 \<le> now ?s'" by (simp add: now_advance)
  from reply_starts_cooldown [OF g ne, of status results] n m
  show ?thesis
    by (auto simp: step_def handle_def cooling_def list_all_iff)
qed

text \<open>
  Claim C5, as stated, fails. A search is issued at 100 ms and completes at 400 ms; a
  click on the Search button at 900 ms, inside the cooldown, issues nothing; the same
  click at 1400 ms, when the cooldown is over, issues a search. (The entry at time 0 of
  the log is the search of the load effect.)
\<close>

theorem user_action_in_cooldown_counterexample:
  "map fst (issued (run readyState [(100, SearchClick)])) = [0, 100] \<and>
   pending (run readyState [(100, SearchClick), (400, Reply SearchNearby OK (Some []))]) = [] \<and>
   loading (run readyState [(100, SearchClick), (400, Reply SearchNearby OK (Some []))]) = False \<and>
   map fst (issued (run readyState
     [(100, SearchClick), (400, Reply SearchNearby OK (Some [])), (900, SearchClick)])) =
     [0, 100] \<and>
   map fst (issued (run readyState
     [(100, SearchClick), (400, Reply SearchNearby OK (Some [])), (1400, SearchClick)])) =
     [0, 100, 1400]"
  by (simp add: readyState_eq sched_defs advance.simps normalizer_defs)

text \<open>
  Claim C5, amended. The cooldown suppresses every call of \<^verbatim>\<open>searchNearby\<close>, the
  explicit user actions included. In every reachable state with a search of
  \<^verbatim>\<open>searchNearby\<close> in flight: when its reply arrives at time \<open>t0\<close>, the search is
  over; after any sequence of events at times before \<open>t0 + 1000\<close> (idle events, actions
  at the controls, autocomplete selections, replies of the gateway) the flag is still
  set and no search has been issued since the reply; the flag is still set when the
  clock then moves to any time \<open>t\<close> before \<open>t0 + 1000\<close>; and an event at such a time
  \<open>t\<close>, whichever it is, issues no search and leaves the flag set.
\<close>

theorem cooldown_blocks_every_trigger:
  assumes "s = run initialState tes" and "searchCalls s \<noteq> []"
    and "s1 = step s (t0, Reply SearchNearby status results)"
    and "\<forall>te \<in> set mid. fst te < t0 + 1000" and "t < t0 + 1000"
  shows "searchCalls s1 = [] \<and>
         isUpdatingRef (run s1 mid) \<and> issued (run s1 mid) = issued s1 \<and>
         isUpdatingRef (advance t (run s1 mid)) \<and>
         issued (step (run s1 mid) (t, e)) = issued s1 \<and>
         isUpdatingRef (step (run s1 mid) (t, e))"
proof -
  have "guarded s" "mapBound s"
    unfolding assms(1) by (rule reachable_invariants, rule mapBound_run [OF mapBound_initial])
  from reply_cooling [OF this assms(2), of t0 status results]
  have c1: "cooling (t0 + 1000) s1" by (simp add: assms(3))
  from cooling_run [OF c1 assms(4)]
  have c2: "cooling (t0 + 1000) (run s1 mid)" "issued (run s1 mid) = issued s1" by simp_all
  from cooling_advance [OF c2(1) assms(5)] cooling_step [OF c2(1), of "(t, e)"] assms(5) c1 c2
  show ?thesis by (simp add: cooling_def)
qed

theorem cooldown_blocks_every_trigger_witness:
  "searchCalls (run readyState [(100, SearchClick)]) \<noteq> [] \<and>
   (500::nat) < 400 + 1000 \<and> (600::nat) < 400 + 1000 \<and> (900::nat) < 400 + 1000 \<and>
   isUpdatingRef (run (step (run readyState [(100, SearchClick)])
       (400, Reply SearchNearby OK (Some [])))
     [(500, Idle (Some \<lparr> lat = 2, lng = 2 \<rparr>)), (600, CuisineChange ''pizza'')]) \<and>
   issued (step (run (step (run readyState [(100, SearchClick)])
       (400, Reply SearchNearby OK (Some [])))
     [(500, Idle (Some \<lparr> lat = 2, lng = 2 \<rparr>)), (600, CuisineChange ''pizza'')])
     (900, SearchClick)) =
   issued (step (run readyState [(100, SearchClick)]) (400, Reply SearchNearby OK (Some []))) \<and>
   map fst (issued (step (run readyState [(100, SearchClick)])
     (400, Reply SearchNearby OK (Some [])))) = [0, 100]"
proof -
  have ne: "searchCalls (run readyState [(100, SearchClick)]) \<noteq> []"
    by (simp add: readyState_eq sched_defs advance.simps searchCalls_def)
  have i: "map fst (issued (step (run readyState [(100, SearchClick)])
     (400, Reply SearchNearby OK (Some [])))) = [0, 100]"
    by (simp add: readyState_eq sched_defs advance.simps normalizer_defs)
  from cooldown_blocks_every_trigger
    [OF readyState_reachable ne refl, of
      "[(500, Idle (Some \<lparr> lat = 2, lng = 2 \<rparr>)), (600, CuisineChange ''pizza'')]"
      400 900 OK "Some []" SearchClick]
    ne i
  show ?thesis by simp
qed

subsection \<open>Recovery from a gateway error\<close>

text \<open>
  With the flag clear, the clock moves either without a search and leaves the flag
  clear, or the first debounce timer that fires issues exactly one search.
\<close>

lemma advance_free:
  assumes "guarded s" "\<not> isUpdatingRef s" "mapCenter s = Some c"
  shows "(issued (advance t s) = issued s \<and> \<not> isUpdatingRef (advance t s)) \<or>
         (length (issued (advance t s)) = Suc (length (issued s)) \<and> isUpdatingRef (advance t s))"
proof (cases "nextDue t s")
  case None
  with assms(2) show ?thesis by (simp add: advance.simps [of t s])
next
  case (Some tm)
  then have tm: "tm \<in> set (timers s)" by (simp add: nextDue_mem)
  from guarded_flags(3) [OF assms(1,2)] tm have d: "action tm = DebounceSearch"
    by (cases "action tm") (auto simp: resetTimers_Nil)
  let ?s0 = "s\<lparr> timers := remove1 tm (timers s), now := max (now s) (due tm) \<rparr>"
  let ?x = "runTimer tm s"
  have x: "?x = commit ?s0 False (searchNearby (currentDeps s) c ?s0)"
    using assms(3) by (simp add: runTimer_debounce [OF d] Let_def)
  from assms(2) have "\<not> isUpdatingRef ?s0" by simp
  from searchNearby_free [OF this, of "currentDeps s" c]
  have fx: "isUpdatingRef ?x" "searchCalls ?x \<noteq> []"
    "length (issued ?x) = Suc (length (issued s))"
    by (simp_all add: x searchCalls_def)
  have gx: "guarded ?x" using assms(1) tm by (rule guarded_runTimer)
  from guarded_flags(1) [OF gx fx(2)]
  have "\<forall>tm \<in> set (timers ?x). action tm = ResetUpdating \<longrightarrow> t < due tm"
    by (simp add: resetTimers_Nil)
  from advance_busy [OF fx(1) this] fx(3) Some show ?thesis
    by (simp add: advance.simps [of t s])
qed

text \<open>
  With the flag set and its reset due, the reset fires, and from then on the flag is
  clear, unless a debounce timer has searched already.
\<close>

lemma advance_cooldown_over:
  assumes "guarded s" "isUpdatingRef s" "R \<in> set (timers s)" "action R = ResetUpdating"
    "due R \<le> t" "mapCenter s = Some c"
  shows "(issued (advance t s) = issued s \<and> \<not> isUpdatingRef (advance t s)) \<or>
         (length (issued (advance t s)) = Suc (length (issued s)) \<and> isUpdatingRef (advance t s))"
  using assms
proof (induction t s rule: advance.induct)
  case (1 t s)
  show ?case
  proof (cases "nextDue t s")
    case None
    with "1.prems"(3,5) show ?thesis by (auto simp: nextDue_None)
  next
    case (Some tm)
    then have tm: "tm \<in> set (timers s)" by (simp add: nextDue_mem)
    have g: "guarded (runTimer tm s)" using "1.prems"(1) tm by (rule guarded_runTimer)
    show ?thesis
    proof (cases "action tm")
      case ResetUpdating
      then have "\<not> isUpdatingRef (runTimer tm s)" "issued (runTimer tm s) = issued s"
        by (simp_all add: runTimer_reset)
      with advance_free [OF g, of c t] "1.prems"(6) Some show ?thesis
        by (simp add: advance.simps [of t s])
    next
      case DebounceSearch
      with "1.prems"(2) have r: "runTimer tm s =
          s\<lparr> timers := remove1 tm (timers s), now := max (now s) (due tm) \<rparr>"
        by (rule runTimer_busy)
      from DebounceSearch "1.prems"(4) have "R \<noteq> tm" by auto
      with "1.prems"(3) have "R \<in> set (timers (runTimer tm s))" by (simp add: r)
      moreover have "isUpdatingRef (runTimer tm s)" "issued (runTimer tm s) = issued s"
        using "1.prems"(2) by (simp_all add: r)
      ultimately show ?thesis
        using "1.IH" [OF Some g _ _ "1.prems"(4,5)] "1.prems"(6) Some
        by (simp add: advance.simps [of t s])
    qed
  qed
qed

lemma searchClick_after:
  assumes "mapInstance s \<noteq> None" "mapCenter s = Some c"
    "(issued s = q \<and> \<not> isUpdatingRef s) \<or> (length (issued s) = Suc (length q) \<and> isUpdatingRef s)"
  shows "length (issued (handle SearchClick s)) = Suc (length q)"
  using assms
  by (auto simp: handle_def onSearchClick_def withCenter_def searchNearby_busy
      dest: searchNearby_free [of _ "currentDeps s" c])

lemma error_reply:
  assumes "guarded s" "tracked s" "freshIds s" "searchCalls s \<noteq> []"
    "status \<noteq> OK" "status \<noteq> ZERO_RESULTS"
  shows "restaurants (step s (t0, Reply SearchNearby status results)) = [] \<and>
         markersRef (step s (t0, Reply SearchNearby status results)) = [] \<and>
         liveMarkers (step s (t0, Reply SearchNearby status results)) = 0 \<and>
         error (step s (t0, Reply SearchNearby status results)) =
           Some ''Error fetching restaurants. Please try again.'' \<and>
         \<not> loading (step s (t0, Reply SearchNearby status results)) \<and>
         searchCalls (step s (t0, Reply SearchNearby status results)) = [] \<and>
         (\<forall>t c. mapInstance s \<noteq> None \<longrightarrow> mapCenter s = Some c \<longrightarrow>
                now (step s (t0, Reply SearchNearby status results)) + 1000 \<le> t \<longrightarrow>
            length (issued (step (step s (t0, Reply SearchNearby status results)) (t, SearchClick)))
              = Suc (length (issued (step s (t0, Reply SearchNearby status results)))))"
proof -
  let ?s' = "advance t0 s"
  let ?R = "\<lparr> tid = nextTimer ?s', due = now ?s' + 1000, action = ResetUpdating \<rparr>"
  let ?s1 = "step s (t0, Reply SearchNearby status results)"
  let ?msg = "''Error fetching restaurants. Please try again.''"
  from guarded_flags(1) [OF assms(1,4)]
  have "isUpdatingRef s" "\<forall>tm \<in> set (timers s). action tm = ResetUpdating \<longrightarrow> t0 < due tm"
    by (simp_all add: resetTimers_Nil)
  from advance_busy [OF this] assms(4)
  have ne: "searchCalls ?s' \<noteq> []" and flag: "isUpdatingRef ?s'"
    by (simp_all add: searchCalls_def)
  have g: "guarded ?s'" using assms(1) by (rule guarded_advance)
  have tr: "tracked ?s'" using assms(2) by simp
  have fr: "freshIds ?s'" by (rule freshIds_cong [OF _ _ assms(3)]) simp_all
  have s1: "?s1 = gatewayReply SearchNearby status results ?s'"
    by (simp add: step_def handle_def)
  from gatewayReply_search [OF g ne, of results status]
  obtain p where p: "filter (\<lambda>call. fst call = SearchNearby) p = []"
    and r0: "(\<exists>e. searchCallback results status (?s'\<lparr> pending := p \<rparr>) = Inl e \<and>
                gatewayReply SearchNearby status results ?s' = ?s'\<lparr> pending := p \<rparr>) \<or>
            (\<exists>s1. searchCallback results status (?s'\<lparr> pending := p \<rparr>) = Inr s1 \<and>
                gatewayReply SearchNearby status results ?s' = rerender s1)"
    by blast
  define sx where "sx = setTimeout ResetUpdating 1000
      ((updateMarkers [] (?s'\<lparr> pending := p, error := Some ?msg, restaurants := [] \<rparr>))
         \<lparr> loading := False \<rparr>)"
  have cb: "searchCallback results status (?s'\<lparr> pending := p \<rparr>) = Inr sx"
    using assms(5,6) by (simp add: searchCallback_def sx_def)
  with r0 have r: "?s1 = rerender sx" by (auto simp: s1)
  have basic: "restaurants ?s1 = []" "error ?s1 = Some ?msg" "\<not> loading ?s1"
    "searchCalls ?s1 = []" "markersRef ?s1 = []"
    using p by (simp_all add: r sx_def setTimeout_def updateMarkers_refs searchCalls_def)
  have "markerHeap ?s1 =
      markerHeap (updateMarkers [] (?s'\<lparr> pending := p, error := Some ?msg, restaurants := [] \<rparr>))"
    by (simp add: r sx_def setTimeout_def)
  then have live: "liveMarkers ?s1 = 0"
    using updateMarkers_live
      [of "?s'\<lparr> pending := p, error := Some ?msg, restaurants := [] \<rparr>" "[]"] tr
    by (simp add: liveMarkers_def)
  have again: "length (issued (step ?s1 (t, SearchClick))) = Suc (length (issued ?s1))"
    if m: "mapInstance s \<noteq> None" and c: "mapCenter s = Some c" and t: "now ?s1 + 1000 \<le> t"
    for t c
  proof -
    have tsx: "timers sx = timers ?s' @ [?R]" "searchTimeoutRef sx = searchTimeoutRef ?s'"
      "now sx = now ?s'"
      using searchCallback_Inr [OF cb] by simp_all
    from fr have "searchTimeoutRef ?s' \<noteq> Some (nextTimer ?s')"
      by (auto simp: freshIds_def)
    with timers_rerender [of sx] tsx have R: "?R \<in> set (timers ?s1)"
      by (auto simp: r)
    have g1: "guarded ?s1" using assms(1) by (rule guarded_step)
    have f1: "isUpdatingRef ?s1" using flag searchCallback_Inr(3) [OF cb] by (simp add: r)
    have c1: "mapCenter ?s1 = Some c" using c searchCallback_Inr(5) [OF cb] by (simp add: r)
    have m1: "mapInstance ?s1 \<noteq> None" using m searchCallback_Inr(4) [OF cb] by (simp add: r)
    from t tsx(3) have dR: "due ?R \<le> t" by (simp add: r)
    from advance_cooldown_over [OF g1 f1 R _ dR c1]
    have "(issued (advance t ?s1) = issued ?s1 \<and> \<not> isUpdatingRef (advance t ?s1)) \<or>
          (length (issued (advance t ?s1)) = Suc (length (issued ?s1)) \<and>
           isUpdatingRef (advance t ?s1))"
      by simp
    moreover have "mapInstance (advance t ?s1) \<noteq> None" using m1 by simp
    moreover have "mapCenter (advance t ?s1) = Some c" using c1 by simp
    ultimately have "length (issued (handle SearchClick (advance t ?s1))) = Suc (length (issued ?s1))"
      by (rule searchClick_after [rotated 2])
    then show ?thesis by (simp add: step_def)
  qed
  from basic live again show ?thesis by blast
qed

text \<open>
  Claim C9. In every reachable state with a search of \<^verbatim>\<open>searchNearby\<close> in flight:
  when the gateway replies with a status other than \<open>OK\<close> and \<open>ZERO_RESULTS\<close>, the
  resulting state has no restaurants, an empty \<^verbatim>\<open>markersRef\<close> and no restaurant
  marker on the map, the error message is set, the loading state is cleared and the
  search is no longer in flight. And the component can search again: with the map
  centered, a click on the Search button at any time from one second after the reply
  adds exactly one call to the log of issued searches (the click's own, unless a
  debounce timer was quicker).
\<close>

theorem gateway_error_recovery:
  assumes "s = run initialState tes" "searchCalls s \<noteq> []"
    "status \<noteq> OK" "status \<noteq> ZERO_RESULTS"
  shows "restaurants (step s (t0, Reply SearchNearby status results)) = [] \<and>
         markersRef (step s (t0, Reply SearchNearby status results)) = [] \<and>
         liveMarkers (step s (t0, Reply SearchNearby status results)) = 0 \<and>
         error (step s (t0, Reply SearchNearby status results)) =
           Some ''Error fetching restaurants. Please try again.'' \<and>
         \<not> loading (step s (t0, Reply SearchNearby status results)) \<and>
         searchCalls (step s (t0, Reply SearchNearby status results)) = [] \<and>
         (\<forall>t c. mapCenter s = Some c \<longrightarrow>
                now (step s (t0, Reply SearchNearby status results)) + 1000 \<le> t \<longrightarrow>
            length (issued (step (step s (t0, Reply SearchNearby status results)) (t, SearchClick)))
              = Suc (length (issued (step s (t0, Reply SearchNearby status results)))))"
proof -
  note inv = reachable_invariants [of tes, folded assms(1)]
  from inv(4) have "mapInstance s \<noteq> None" if "mapCenter s = Some c" for c
    using that by simp
  with error_reply [OF inv(1,2,3) assms(2,3,4), of t0 results] show ?thesis
    by blast
qed

theorem gateway_error_recovery_witness:
  "searchCalls (run readyState [(100, SearchClick)]) \<noteq> [] \<and>
   UNKNOWN_ERROR \<noteq> OK \<and> UNKNOWN_ERROR \<noteq> ZERO_RESULTS \<and>
   restaurants (step (run readyState [(100, SearchClick)])
     (400, Reply SearchNearby UNKNOWN_ERROR None)) = [] \<and>
   markersRef (step (run readyState [(100, SearchClick)])
     (400, Reply SearchNearby UNKNOWN_ERROR None)) = [] \<and>
   error (step (run readyState [(100, SearchClick)])
     (400, Reply SearchNearby UNKNOWN_ERROR None)) =
     Some ''Error fetching restaurants. Please try again.'' \<and>
   \<not> loading (step (run readyState [(100, SearchClick)])
     (400, Reply SearchNearby UNKNOWN_ERROR None)) \<and>
   mapCenter (run readyState [(100, SearchClick)]) = Some \<lparr> lat = 1, lng = 1 \<rparr> \<and>
   now (step (run readyState [(100, SearchClick)])
     (400, Reply SearchNearby UNKNOWN_ERROR None)) + 1000 \<le> 1400 \<and>
   length (issued (step (step (run readyState [(100, SearchClick)])
       (400, Reply SearchNearby UNKNOWN_ERROR None)) (1400, SearchClick))) =
     Suc (length (issued (step (run readyState [(100, SearchClick)])
       (400, Reply SearchNearby UNKNOWN_ERROR None))))"
proof -
  let ?s = "run readyState [(100, SearchClick)]"
  have ne: "searchCalls ?s \<noteq> []"
    by (simp add: readyState_eq sched_defs advance.simps searchCalls_def)
  have c: "mapCenter ?s = Some \<lparr> lat = 1, lng = 1 \<rparr>"
    by (simp add: readyState_eq sched_defs advance.simps)
  have n: "now (step ?s (400, Reply SearchNearby UNKNOWN_ERROR None)) + 1000 \<le> 1400"
    by (simp add: readyState_eq sched_defs advance.simps)
  note t = gateway_error_recovery [OF readyState_reachable ne, of UNKNOWN_ERROR 400 None]
  from t c n ne show ?thesis by simp
qed

subsection \<open>Debounce\<close>

text \<open>
  A settle event while no search is under way and no timer is due: the timeout held in
  \<^verbatim>\<open>searchTimeoutRef\<close> is cancelled and a new one is set, one second ahead.
\<close>

lemma idle_restarts_timer:
  assumes "mapInstance s \<noteq> None" "\<not> isUpdatingRef s" "\<forall>tm \<in> set (timers s). t < due tm"
    "now s \<le> t"
  shows "timers (step s (t, Idle c)) =
           filter (\<lambda>tm. Some (tid tm) \<noteq> searchTimeoutRef s) (timers s) @
           [\<lparr> tid = nextTimer s, due = t + 1000, action = DebounceSearch \<rparr>]"
    and "searchTimeoutRef (step s (t, Idle c)) = Some (nextTimer s)"
    and "nextTimer (step s (t, Idle c)) = Suc (nextTimer s)"
    and "now (step s (t, Idle c)) = t"
    and "\<not> isUpdatingRef (step s (t, Idle c))"
    and "mapInstance (step s (t, Idle c)) = mapInstance s"
    and "mapCenter (step s (t, Idle c)) = c"
    and "issued (step s (t, Idle c)) = issued s"
    and "currentDeps (step s (t, Idle c)) = currentDeps s"
proof -
  from assms(3) have "nextDue t s = None" by (simp add: nextDue_None)
  then have a: "advance t s = s\<lparr> now := max (now s) t \<rparr>" by (simp add: advance.simps [of t s])
  have "step s (t, Idle c) = onIdle c (s\<lparr> now := max (now s) t \<rparr>)"
    by (simp add: step_def handle_def a onIdle_def Let_def commit_def reactChanged_def
        setTimeout_def clearTimeout_def split: option.splits)
  with assms(1,2,4) show
    "timers (step s (t, Idle c)) =
           filter (\<lambda>tm. Some (tid tm) \<noteq> searchTimeoutRef s) (timers s) @
           [\<lparr> tid = nextTimer s, due = t + 1000, action = DebounceSearch \<rparr>]"
    "searchTimeoutRef (step s (t, Idle c)) = Some (nextTimer s)"
    "nextTimer (step s (t, Idle c)) = Suc (nextTimer s)"
    "now (step s (t, Idle c)) = t"
    "\<not> isUpdatingRef (step s (t, Idle c))"
    "mapInstance (step s (t, Idle c)) = mapInstance s"
    "mapCenter (step s (t, Idle c)) = c"
    "issued (step s (t, Idle c)) = issued s"
    "currentDeps (step s (t, Idle c)) = currentDeps s"
    by (auto simp: onIdle_def Let_def setTimeout_def clearTimeout_def currentDeps_def
        split: option.splits)
qed

text \<open>
  Claim C7. The map settles at 0 ms, 200 ms and 400 ms, while no search is under way
  and no other timer is pending. Whatever time \<open>T\<close> the clock is then moved to, the
  log has grown by nothing before 1400 ms and by exactly one search from 1400 ms on: the
  search issued at 1400 ms, around the center of the last settle event.
\<close>

theorem debounce_burst:
  assumes "mapInstance s \<noteq> None" "\<not> isUpdatingRef s" "timers s = []" "now s = 0"
  shows "issued (advance T (run s [(0, Idle c1), (200, Idle c2), (400, Idle (Some c3))])) =
           issued s @ (if 1400 \<le> T then [(1400, buildRequest (currentDeps s) c3)] else [])"
proof -
  let ?s1 = "step s (0, Idle c1)"
  let ?s2 = "step ?s1 (200, Idle c2)"
  let ?s3 = "step ?s2 (400, Idle (Some c3))"
  let ?tm = "\<lparr> tid = Suc (Suc (nextTimer s)), due = 1400, action = DebounceSearch \<rparr>"
  have run: "run s [(0, Idle c1), (200, Idle c2), (400, Idle (Some c3))] = ?s3"
    by (simp add: run_def)
  note i1 = idle_restarts_timer [of s 0 c1]
  have s1: "mapInstance ?s1 \<noteq> None" "\<not> isUpdatingRef ?s1"
    "timers ?s1 = [\<lparr> tid = nextTimer s, due = 1000, action = DebounceSearch \<rparr>]"
    "searchTimeoutRef ?s1 = Some (nextTimer s)" "nextTimer ?s1 = Suc (nextTimer s)"
    "now ?s1 = 0" "issued ?s1 = issued s" "currentDeps ?s1 = currentDeps s"
    using assms by (simp_all add: i1)
  note i2 = idle_restarts_timer [of ?s1 200 c2]
  have s2: "mapInstance ?s2 \<noteq> None" "\<not> isUpdatingRef ?s2"
    "timers ?s2 = [\<lparr> tid = Suc (nextTimer s), due = 1200, action = DebounceSearch \<rparr>]"
    "searchTimeoutRef ?s2 = Some (Suc (nextTimer s))" "nextTimer ?s2 = Suc (Suc (nextTimer s))"
    "now ?s2 = 200" "issued ?s2 = issued s" "currentDeps ?s2 = currentDeps s"
    using s1 by (simp_all add: i2)
  note i3 = idle_restarts_timer [of ?s2 400 "Some c3"]
  have s3: "timers ?s3 = [?tm]" "issued ?s3 = issued s" "\<not> isUpdatingRef ?s3"
    "mapCenter ?s3 = Some c3" "now ?s3 = 400" "currentDeps ?s3 = currentDeps s"
    using s2 by (simp_all add: i3)
  show ?thesis
  proof (cases "1400 \<le> T")
    case False
    with s3 show ?thesis by (simp add: run advance.simps [of T ?s3] nextDue_def)
  next
    case True
    with s3 have nd: "nextDue T ?s3 = Some ?tm" by (simp add: nextDue_def)
    let ?x = "runTimer ?tm ?s3"
    have x: "timers ?x = []" "issued ?x = issued s @ [(1400, buildRequest (currentDeps s) c3)]"
      using s3 timers_commit [of "?s3\<lparr> timers := [], now := 1400 \<rparr>" False
          "searchNearby (currentDeps ?s3) c3 (?s3\<lparr> timers := [], now := 1400 \<rparr>)"]
      by (auto simp: runTimer_debounce Let_def searchNearby_free)
    then have "nextDue T ?x = None" by (simp add: nextDue_def)
    with x have "issued (advance T ?x) = issued s @ [(1400, buildRequest (currentDeps s) c3)]"
      by (simp add: advance.simps [of T ?x])
    with nd True show ?thesis by (simp add: run advance.simps [of T ?s3])
  qed
qed

theorem debounce_burst_witness:
  "mapInstance readyState \<noteq> None \<and> \<not> isUpdatingRef readyState \<and> timers readyState = [] \<and>
   now readyState = 0 \<and>
   issued (advance 5000 (run readyState
     [(0, Idle (Some \<lparr> lat = 1, lng = 2 \<rparr>)), (200, Idle (Some \<lparr> lat = 1, lng = 3 \<rparr>)),
      (400, Idle (Some \<lparr> lat = 1, lng = 4 \<rparr>))])) =
   issued readyState @ [(1400, buildRequest (currentDeps readyState) \<lparr> lat = 1, lng = 4 \<rparr>)] \<and>
   issued (advance 1399 (run readyState
     [(0, Idle (Some \<lparr> lat = 1, lng = 2 \<rparr>)), (200, Idle (Some \<lparr> lat = 1, lng = 3 \<rparr>)),
      (400, Idle (Some \<lparr> lat = 1, lng = 4 \<rparr>))])) = issued readyState"
proof -
  have h: "mapInstance readyState \<noteq> None" "\<not> isUpdatingRef readyState" "timers readyState = []"
    "now readyState = 0"
    by (simp_all add: readyState_eq)
  from debounce_burst [OF h, of 5000 "Some \<lparr> lat = 1, lng = 2 \<rparr>" "Some \<lparr> lat = 1, lng = 3 \<rparr>"
      "\<lparr> lat = 1, lng = 4 \<rparr>"]
    debounce_burst [OF h, of 1399 "Some \<lparr> lat = 1, lng = 2 \<rparr>" "Some \<lparr> lat = 1, lng = 3 \<rparr>"
      "\<lparr> lat = 1, lng = 4 \<rparr>"] h
  show ?thesis by simp
qed

subsection \<open>The keyword of the request\<close>




text \<open>The clock and a render leave the values of the closure alone.\<close>

lemma currentDeps_cong:
  "searchTerm s' = searchTerm s \<Longrightarrow> cuisineFilter s' = cuisineFilter s \<Longrightarrow>
   searchRadius s' = searchRadius s \<Longrightarrow> currentDeps s' = currentDeps s"
  by (simp add: currentDeps_def)

lemma currentDeps_ops [simp]:
  "currentDeps (searchNearby d l s) = currentDeps s"
  "currentDeps (rerender s) = currentDeps s"
  "currentDeps (commit s0 fresh s) = currentDeps s"
  by (rule currentDeps_cong;
      simp add: searchNearby_def rerender_def commit_def clearTimeout_def Let_def
        split: option.splits)+

lemma currentDeps_runTimer [simp]: "currentDeps (runTimer tm s) = currentDeps s"
proof -
  have "currentDeps (s\<lparr> timers := x, now := y \<rparr>) = currentDeps s" for x y
    by (simp add: currentDeps_def)
  moreover have "currentDeps (s\<lparr> timers := x, now := y, isUpdatingRef := z \<rparr>) = currentDeps s"
    for x y z
    by (simp add: currentDeps_def)
  ultimately show ?thesis
    by (cases "action tm")
       (simp_all add: runTimer_reset runTimer_debounce Let_def split: option.splits)
qed




















section \<open>The filter pipeline on the working set\<close>

text \<open>
  The working set is written only by the two callbacks of \<^verbatim>\<open>nearbySearch\<close>: each
  stores the output of the normalizer or the empty list. So every restaurant of the
  working set of a state the component reaches has a rating of at least 3.5.
\<close>

lemma restaurants_runTimer [simp]: "restaurants (runTimer tm s) = restaurants s"
  by (cases "action tm")
     (simp_all add: runTimer_reset runTimer_debounce Let_def split: option.splits)

lemma restaurants_advance [simp]: "restaurants (advance t s) = restaurants s"
proof (induction t s rule: advance.induct)
  case (1 t s)
  then show ?case
    by (cases "nextDue t s") (simp_all add: advance.simps [of t s])
qed









end
